theory Spec2Isabelle
  imports Main
begin

section \<open>The payload graph as seen by the matchers\<close>

text \<open>
  The matchers of \<^verbatim>\<open>TransformMatchers.h/.cpp\<close> only read the IR through a handful of
  queries on operations and values. Operations are identified by their address; a value
  is either a result of an operation or a block argument (of a block whose parent
  operation may be missing when the block is detached).
\<close>

type_synonym op_ref = nat

datatype Value =
    OpResult op_ref nat
  | BlockArgument "op_ref option" nat

text \<open>An \<^verbatim>\<open>OpOperand\<close>: the owning operation and the operand number.\<close>

type_synonym OpOperand = "op_ref \<times> nat"

datatype OpKind =
    ExtractSliceOp | ForeachThreadOp | FillOp | GenericOp | FuncOp | ModuleOp | OtherOp

datatype ShapeKind = Static | Dynamic

datatype IteratorType = parallel | reduction

text \<open>Classification of an indexing map (\<^verbatim>\<open>AffineMap::isPermutation\<close>,
  \<^verbatim>\<open>AffineMap::isProjectedPermutation\<close>).\<close>

datatype IndexingMap = PermutationMap | ProjectedPermutationMap | UnconstrainedMap

record ir =
  isLinalgOp :: "op_ref \<Rightarrow> bool"
  opKind :: "op_ref \<Rightarrow> OpKind"
  getIteratorTypesArray :: "op_ref \<Rightarrow> IteratorType list"
  getStaticLoopRanges :: "op_ref \<Rightarrow> int list"
  getDpsInputOperands :: "op_ref \<Rightarrow> (Value \<times> IndexingMap) list"
  getDpsInitOperands :: "op_ref \<Rightarrow> (Value \<times> IndexingMap) list"
  getOperands :: "op_ref \<Rightarrow> Value list"
  getNumResults :: "op_ref \<Rightarrow> nat"
  getUses :: "Value \<Rightarrow> OpOperand list"
  getParentOfType :: "op_ref \<Rightarrow> OpKind \<Rightarrow> op_ref option"
  walkTilingInterface :: "op_ref \<Rightarrow> op_ref list"
  initElementBitWidth :: "op_ref \<Rightarrow> nat \<Rightarrow> nat option"
  matchReduction :: "op_ref \<Rightarrow> nat \<Rightarrow> nat option"
  getRank :: "op_ref \<Rightarrow> nat"

text \<open>
  \<^item> \<open>getUses\<close> lists the uses of a value in use-list order;
  \<^item> \<open>walkTilingInterface p\<close> lists the operations visited by
    \<^verbatim>\<open>p->walk([&](TilingInterface) {...})\<close>;
  \<^item> \<open>initElementBitWidth op i\<close> is the bit width of the element type of the \<open>i\<close>-th init
    operand when it is a shaped type of integer or float elements;
  \<^item> \<open>matchReduction op i\<close> is the number of combiner operations found by
    \<^verbatim>\<open>matchReduction\<close> for the \<open>i\<close>-th region output argument, when it succeeds;
  \<^item> \<open>getRank l\<close> is the number of thread indices of an \<^verbatim>\<open>scf.foreach_thread\<close>,
    that is the number of its leading block arguments and operands that are not outputs.
\<close>

definition getNumLoops :: "ir \<Rightarrow> op_ref \<Rightarrow> nat" where
  "getNumLoops g op = length (getIteratorTypesArray g op)"

definition getNumDpsInputs :: "ir \<Rightarrow> op_ref \<Rightarrow> nat" where
  "getNumDpsInputs g op = length (getDpsInputOperands g op)"

definition getNumDpsInits :: "ir \<Rightarrow> op_ref \<Rightarrow> nat" where
  "getNumDpsInits g op = length (getDpsInitOperands g op)"

definition getDefiningOp :: "Value \<Rightarrow> op_ref option" where
  "getDefiningOp v = (case v of OpResult d i \<Rightarrow> Some d | BlockArgument b i \<Rightarrow> None)"

definition getUsers :: "ir \<Rightarrow> Value \<Rightarrow> op_ref list" where
  "getUsers g v = map fst (getUses g v)"

text \<open>Modelled from the spec: a dimension has a size that is either a statically known
  integer or dynamic. \<^verbatim>\<open>ShapedType::kDynamic\<close>, the sentinel \<open>getStaticLoopRanges\<close> holds
  for a dynamic size, is not in the sources; no statement below depends on its value.\<close>

definition kDynamic :: int where
  "kDynamic = - (2 ^ 63)"

definition isDynamic :: "int \<Rightarrow> bool" where
  "isDynamic d = (d = kDynamic)"

definition isPermutation :: "IndexingMap \<Rightarrow> bool" where
  "isPermutation m = (m = PermutationMap)"

definition isProjectedPermutation :: "IndexingMap \<Rightarrow> bool" where
  "isProjectedPermutation m = (m = PermutationMap \<or> m = ProjectedPermutationMap)"

text \<open>What stops the C++ program instead of returning: a failed assertion or an
  out-of-range access, a division by zero, a loop that never ends, and, for the
  recursion of matchers through references, the end of the fuel.\<close>

datatype error =
    OutOfBounds
  | DivisionByZero
  | DetachedBlock
  | NullOperation
  | Diverges
  | OutOfFuel

section \<open>The result carrier of match callbacks\<close>

record MatchCallbackResult =
  payloadOperations :: "op_ref list"
  payloadGroupLengths :: "nat list"

definition emptyMatchCallbackResult :: MatchCallbackResult where
  "emptyMatchCallbackResult = \<lparr>payloadOperations = [], payloadGroupLengths = []\<rparr>"

definition getNumPayloadGroups :: "MatchCallbackResult \<Rightarrow> nat" where
  "getNumPayloadGroups r = length (payloadGroupLengths r)"

text \<open>The loop \<^verbatim>\<open>for (i = 0; i < position; ++i) start += payloadGroupLengths[i]\<close>.\<close>

fun groupStart :: "nat list \<Rightarrow> nat \<Rightarrow> nat \<Rightarrow> nat" where
  "groupStart ls 0 start = start"
| "groupStart [] (Suc n) start = start"
| "groupStart (l # ls) (Suc n) start = groupStart ls n (start + l)"

text \<open>\<^verbatim>\<open>ArrayRef::slice(N, M)\<close> asserts \<open>N + M \<le> size\<close>.\<close>

definition slice :: "'a list \<Rightarrow> nat \<Rightarrow> nat \<Rightarrow> error + 'a list" where
  "slice xs n m = (if n + m \<le> length xs then Inr (take m (drop n xs)) else Inl OutOfBounds)"

definition getPayloadGroup :: "MatchCallbackResult \<Rightarrow> nat \<Rightarrow> error + op_ref list" where
  "getPayloadGroup r position =
     (if position < length (payloadGroupLengths r)
      then slice (payloadOperations r)
             (groupStart (payloadGroupLengths r) position 0)
             (payloadGroupLengths r ! position)
      else Inl OutOfBounds)"

text \<open>\<^verbatim>\<open>addPayloadGroup\<close> takes a range of possibly null pointers and asserts that none
  is null. It returns the index of the new group.\<close>

definition addPayloadGroup ::
  "op_ref option list \<Rightarrow> MatchCallbackResult \<Rightarrow> error + (nat \<times> MatchCallbackResult)" where
  "addPayloadGroup operations r =
     (let originalLength = length (payloadOperations r) in
      if list_all (\<lambda>p. p \<noteq> None) operations
      then (let ops' = payloadOperations r @ [x. Some x \<leftarrow> operations];
                lens' = payloadGroupLengths r @ [length ops' - originalLength]
            in Inr (length lens' - 1,
                    r\<lparr>payloadOperations := ops', payloadGroupLengths := lens'\<rparr>))
      else Inl NullOperation)"

definition addPotentiallyEmptyPayloadGroup ::
  "op_ref option \<Rightarrow> MatchCallbackResult \<Rightarrow> error + MatchCallbackResult" where
  "addPotentiallyEmptyPayloadGroup p r =
     (case (case p of None \<Rightarrow> addPayloadGroup [] r | Some x \<Rightarrow> addPayloadGroup [Some x] r) of
        Inl e \<Rightarrow> Inl e
      | Inr (i, r') \<Rightarrow> Inr r')"

text \<open>The lengths account for exactly the operations stored: true of the empty carrier
  and kept by every addition.\<close>

definition carrierInv :: "MatchCallbackResult \<Rightarrow> bool" where
  "carrierInv r = (sum_list (payloadGroupLengths r) = length (payloadOperations r))"

section \<open>Subset traversal\<close>

text \<open>\<^verbatim>\<open>SmallVector::operator[]\<close>, \<^verbatim>\<open>getDpsInputOperand(i)\<close>,
  \<^verbatim>\<open>getOpOperand(i)\<close>: an index outside the range is an assertion failure.\<close>

definition index :: "'a list \<Rightarrow> int \<Rightarrow> error + 'a" where
  "index xs i = (if 0 \<le> i \<and> i < int (length xs) then Inr (xs ! nat i) else Inl OutOfBounds)"

text \<open>Modelled from the spec: a fan-out construct ties each of its internal output
  values to one external operand, one-to-one. For \<^verbatim>\<open>scf::ForeachThreadOp\<close> (not in
  the sources) the block arguments after the first \<open>getRank\<close> ones are the output block
  arguments, and the output block argument number \<open>a\<close> is tied to the operand number
  \<open>getNumThreads().size() + a - getRank()\<close>, which is \<open>a\<close>.\<close>

definition getOutputBlockArguments :: "ir \<Rightarrow> op_ref \<Rightarrow> Value list" where
  "getOutputBlockArguments g loop =
     map (\<lambda>a. BlockArgument (Some loop) a) [getRank g loop ..< length (getOperands g loop)]"

definition getTiedOpOperand :: "ir \<Rightarrow> op_ref \<Rightarrow> nat \<Rightarrow> error + OpOperand" where
  "getTiedOpOperand g loop a =
     (if getRank g loop \<le> a \<and> a < length (getOperands g loop) then Inr (loop, a)
      else Inl OutOfBounds)"

definition operandGet :: "ir \<Rightarrow> OpOperand \<Rightarrow> error + Value" where
  "operandGet g u = index (getOperands g (fst u)) (int (snd u))"

text \<open>\<^verbatim>\<open>extractSlice.getSource()\<close> is operand 0, \<^verbatim>\<open>slice.getResult()\<close> is result 0.\<close>

definition getSource :: "ir \<Rightarrow> op_ref \<Rightarrow> error + Value" where
  "getSource g s = operandGet g (s, 0)"

partial_function (option) traverseSubsetsBackwards ::
  "ir \<Rightarrow> Value \<Rightarrow> (error + op_ref) option" where
  "traverseSubsetsBackwards g val =
     (case val of
        BlockArgument owner a \<Rightarrow>
          (case owner of
             None \<Rightarrow> Some (Inl DetachedBlock)
           | Some blockOp \<Rightarrow>
               if opKind g blockOp = ForeachThreadOp
               then (case getTiedOpOperand g blockOp a of
                       Inl e \<Rightarrow> Some (Inl e)
                     | Inr u \<Rightarrow>
                         (case operandGet g u of
                            Inl e \<Rightarrow> Some (Inl e)
                          | Inr v \<Rightarrow> traverseSubsetsBackwards g v))
               else Some (Inr blockOp))
      | OpResult op i \<Rightarrow>
          if opKind g op = ExtractSliceOp
          then (case getSource g op of
                  Inl e \<Rightarrow> Some (Inl e)
                | Inr v \<Rightarrow> traverseSubsetsBackwards g v)
          else Some (Inr op))"

declare traverseSubsetsBackwards.simps [code]

text \<open>The body of \<^verbatim>\<open>for (OpOperand &use : val.getUses())\<close> in
  \<^verbatim>\<open>traverseSubsetsForwardAnyUse\<close>. The range is evaluated once, so an assignment to
  \<open>val\<close> followed by \<^verbatim>\<open>continue\<close> goes on with the next use of the value the loop
  started from. \<open>Inl user\<close> is \<^verbatim>\<open>return user\<close>; \<open>Inr val\<close> is the end of the range with
  the current \<open>val\<close>.\<close>

fun forUses :: "ir \<Rightarrow> OpOperand list \<Rightarrow> Value \<Rightarrow> op_ref + Value" where
  "forUses g [] val = Inr val"
| "forUses g (use # uses) val =
     (let user = fst use in
      if opKind g user = ForeachThreadOp
      then (case find (\<lambda>bbarg. case bbarg of
                         BlockArgument owner a \<Rightarrow> getTiedOpOperand g user a \<noteq> Inr use
                       | OpResult d i \<Rightarrow> True)
                   (getOutputBlockArguments g user) of
              None \<Rightarrow> Inl user
            | Some bbarg \<Rightarrow> forUses g uses bbarg)
      else if opKind g user = ExtractSliceOp
      then forUses g uses (OpResult user 0)
      else Inl user)"

partial_function (option) traverseSubsetsForwardAnyUse :: "ir \<Rightarrow> Value \<Rightarrow> op_ref option" where
  "traverseSubsetsForwardAnyUse g val =
     (case forUses g (getUses g val) val of
        Inl user \<Rightarrow> Some user
      | Inr val' \<Rightarrow> traverseSubsetsForwardAnyUse g val')"

declare traverseSubsetsForwardAnyUse.simps [code]

section \<open>Structured op matchers\<close>

type_synonym matcher_ref = nat
type_synonym cell_ref = nat

text \<open>
  A \<^verbatim>\<open>StructuredOpMatcher\<close> holds closures of type \<^verbatim>\<open>bool(linalg::LinalgOp)\<close>. Each closure
  is created by one method of the class; a predicate names the method and the values the
  closure captured. A nested matcher is captured by reference (\<open>matcher_ref\<close>), a
  \<^verbatim>\<open>CaptureStaticValue<int64_t>\<close> holds a reference to an integer (\<open>cell_ref\<close>).
\<close>

datatype predicate =
    IsaOp "OpKind list"
  | RankNumGreaterEqualTo nat
  | RankNumLowerEqualTo nat
  | DimsShapeKind "int list" ShapeKind
  | AllDimsShapeKind ShapeKind
  | DimsIteratorType "int list" IteratorType
  | AllDimsExceptIteratorType "int list" IteratorType
  | DimDivisibleBy int int
  | RankCaptureStaticValue cell_ref
  | DimCaptureStaticValue int cell_ref
  | InputNumEqualsTo nat
  | InputAllOperandsIsPermutation
  | InputAllOperandsIsProjectedPermutation
  | InputMatcher int matcher_ref bool
  | InputSubsetOf int matcher_ref
  | OutputNumEqualsTo nat
  | OutputAllOperandsIsPermutation
  | OutputAllOperandsIsProjectedPermutation
  | OutputElementTypeBitWidth int nat
  | OutputSingleCombinerReduction int
  | OutputMatcher int matcher_ref bool
  | OutputSubsetOf int matcher_ref
  | ResultHasAnyUse int matcher_ref bool
  | ResultHasAnyUseSubsetOf int matcher_ref bool
  | AllTilableOpsCaptured OpKind "matcher_ref list"

text \<open>The objects the matchers live in, one map per field of \<^verbatim>\<open>StructuredOpMatcher\<close>
  (\<open>predicates\<close>, \<open>nestedCapturingMatchers\<close>, \<open>captured\<close>), and the integers that
  \<^verbatim>\<open>CaptureStaticValue\<close> refers to.\<close>

record heap =
  predicates :: "matcher_ref \<Rightarrow> predicate list"
  nestedCapturingMatchers :: "matcher_ref \<Rightarrow> matcher_ref list"
  captured :: "matcher_ref \<Rightarrow> op_ref option"
  cells :: "cell_ref \<Rightarrow> int"

type_synonym outcome = "error + (bool \<times> heap)"

definition getCaptured :: "heap \<Rightarrow> matcher_ref \<Rightarrow> op_ref option" where
  "getCaptured h m = captured h m"

text \<open>\<^verbatim>\<open>position >= 0 ? position : n + position\<close>\<close>

definition resolve :: "int \<Rightarrow> nat \<Rightarrow> int" where
  "resolve position n = (if position \<ge> 0 then position else int n + position)"

text \<open>The remainder of C++, which truncates towards zero.\<close>

definition cRem :: "int \<Rightarrow> int \<Rightarrow> int" where
  "cRem a b = sgn a * (\<bar>a\<bar> mod \<bar>b\<bar>)"

fun dimsShapeKindLoop :: "int list \<Rightarrow> ShapeKind \<Rightarrow> int list \<Rightarrow> bool" where
  "dimsShapeKindLoop shape kind [] = True"
| "dimsShapeKindLoop shape kind (dimension # dimensions) =
     (let transformedDimension = resolve dimension (length shape) in
      if transformedDimension < 0 \<or> transformedDimension \<ge> int (length shape) then False
      else if isDynamic (shape ! nat transformedDimension) \<noteq> (kind = Static)
      then dimsShapeKindLoop shape kind dimensions
      else False)"

fun dimsIteratorTypeLoop :: "IteratorType list \<Rightarrow> IteratorType \<Rightarrow> int list \<Rightarrow> bool" where
  "dimsIteratorTypeLoop types kind [] = True"
| "dimsIteratorTypeLoop types kind (dimension # dimensions) =
     (let transformedDimension = resolve dimension (length types) in
      if transformedDimension < 0 \<or> transformedDimension \<ge> int (length types) then False
      else if types ! nat transformedDimension = kind
      then dimsIteratorTypeLoop types kind dimensions
      else False)"

fun allDimsExceptLoop :: "int list \<Rightarrow> IteratorType \<Rightarrow> (nat \<times> IteratorType) list \<Rightarrow> bool" where
  "allDimsExceptLoop excludedDims kind [] = True"
| "allDimsExceptLoop excludedDims kind (it # rest) =
     (if int (fst it) \<in> set excludedDims then allDimsExceptLoop excludedDims kind rest
      else if snd it = kind then allDimsExceptLoop excludedDims kind rest
      else False)"

text \<open>\<^verbatim>\<open>llvm::SmallPtrSet::insert\<close> and the set built by \<^verbatim>\<open>checkAllTilableMatched\<close>.\<close>

definition insertPtr :: "op_ref \<Rightarrow> op_ref list \<Rightarrow> op_ref list" where
  "insertPtr x s = (if x \<in> set s then s else s @ [x])"

fun insertCaptured :: "heap \<Rightarrow> matcher_ref list \<Rightarrow> op_ref list \<Rightarrow> op_ref list" where
  "insertCaptured h [] matched = matched"
| "insertCaptured h (nested # matchers) matched =
     (case getCaptured h nested of
        None \<Rightarrow> insertCaptured h matchers matched
      | Some c \<Rightarrow> insertCaptured h matchers (insertPtr c matched))"

definition checkAllTilableMatched ::
  "ir \<Rightarrow> heap \<Rightarrow> op_ref option \<Rightarrow> op_ref \<Rightarrow> matcher_ref list \<Rightarrow> bool" where
  "checkAllTilableMatched g h parent linalgOp matchers =
     (case parent of
        None \<Rightarrow> False
      | Some p \<Rightarrow>
          (let numTilableOps = length (walkTilingInterface g p);
               matched = insertPtr linalgOp (insertCaptured h matchers [])
           in numTilableOps = length matched))"

text \<open>A predicate that does not touch the matchers returns its verdict and the heap
  as it was.\<close>

definition pure :: "bool \<Rightarrow> heap \<Rightarrow> outcome" where
  "pure b h = Inr (b, h)"

text \<open>\<^verbatim>\<open>if (matcher.match(op)) return true; return optional.value;\<close>\<close>

definition orOptional :: "bool \<Rightarrow> outcome \<Rightarrow> outcome" where
  "orOptional optional r =
     (case r of Inl e \<Rightarrow> Inl e | Inr (b, h') \<Rightarrow> Inr (b \<or> optional, h'))"

text \<open>\<^verbatim>\<open>llvm::any_of(users, [&](Operation *op) { return matcher.match(op); })\<close> stops at
  the first user that matches.\<close>

fun anyOfUsers ::
  "(heap \<Rightarrow> matcher_ref \<Rightarrow> op_ref \<Rightarrow> outcome) \<Rightarrow> matcher_ref \<Rightarrow> op_ref list \<Rightarrow> heap \<Rightarrow> outcome" where
  "anyOfUsers rec m [] h = Inr (False, h)"
| "anyOfUsers rec m (u # us) h =
     (case rec h m u of
        Inl e \<Rightarrow> Inl e
      | Inr (b, h') \<Rightarrow> if b then Inr (True, h') else anyOfUsers rec m us h')"

text \<open>
  The bodies of the closures. \<open>rec\<close> is \<^verbatim>\<open>StructuredOpMatcher::match\<close> on the nested
  matcher a closure refers to; \<open>linalgOp\<close> is the candidate.
\<close>

fun evalPredicate ::
  "(heap \<Rightarrow> matcher_ref \<Rightarrow> op_ref \<Rightarrow> outcome) \<Rightarrow> ir \<Rightarrow> predicate \<Rightarrow> heap \<Rightarrow> op_ref \<Rightarrow> outcome" where
  "evalPredicate rec g (IsaOp kinds) h linalgOp = pure (opKind g linalgOp \<in> set kinds) h"
| "evalPredicate rec g (RankNumGreaterEqualTo minRank) h linalgOp =
     pure (getNumLoops g linalgOp \<ge> minRank) h"
| "evalPredicate rec g (RankNumLowerEqualTo maxRank) h linalgOp =
     pure (getNumLoops g linalgOp \<le> maxRank) h"
| "evalPredicate rec g (DimsShapeKind dimensions kind) h linalgOp =
     pure (dimsShapeKindLoop (getStaticLoopRanges g linalgOp) kind dimensions) h"
| "evalPredicate rec g (AllDimsShapeKind kind) h linalgOp =
     pure (list_all (\<lambda>dimension. isDynamic dimension \<noteq> (kind = Static))
             (getStaticLoopRanges g linalgOp)) h"
| "evalPredicate rec g (DimsIteratorType dimensions kind) h linalgOp =
     pure (dimsIteratorTypeLoop (getIteratorTypesArray g linalgOp) kind dimensions) h"
| "evalPredicate rec g (AllDimsExceptIteratorType excluded kind) h linalgOp =
     (let rank = getNumLoops g linalgOp;
          excludedDims = map (\<lambda>d. resolve d rank) excluded
      in pure (allDimsExceptLoop excludedDims kind
                 (enumerate 0 (getIteratorTypesArray g linalgOp))) h)"
| "evalPredicate rec g (DimDivisibleBy dimension divisor) h linalgOp =
     (let rank = getNumLoops g linalgOp;
          transformedDimension = resolve dimension rank
      in if transformedDimension \<ge> int rank then pure False h
         else (case index (getStaticLoopRanges g linalgOp) transformedDimension of
                 Inl e \<Rightarrow> Inl e
               | Inr dimSize \<Rightarrow>
                   if isDynamic dimSize then pure False h
                   else if divisor = 0 then Inl DivisionByZero
                   else pure (cRem dimSize divisor = 0) h))"
| "evalPredicate rec g (RankCaptureStaticValue capture) h linalgOp =
     pure True (h\<lparr>cells := (cells h)(capture := int (getNumLoops g linalgOp))\<rparr>)"
| "evalPredicate rec g (DimCaptureStaticValue dimension capture) h linalgOp =
     (let rank = getNumLoops g linalgOp;
          transformedDimension = resolve dimension rank
      in if transformedDimension \<ge> int rank then pure False h
         else (case index (getStaticLoopRanges g linalgOp) transformedDimension of
                 Inl e \<Rightarrow> Inl e
               | Inr dimSize \<Rightarrow> pure True (h\<lparr>cells := (cells h)(capture := dimSize)\<rparr>)))"
| "evalPredicate rec g (InputNumEqualsTo num) h linalgOp =
     pure (getNumDpsInputs g linalgOp = num) h"
| "evalPredicate rec g InputAllOperandsIsPermutation h linalgOp =
     pure (list_all (\<lambda>operand. isPermutation (snd operand)) (getDpsInputOperands g linalgOp)) h"
| "evalPredicate rec g InputAllOperandsIsProjectedPermutation h linalgOp =
     pure (list_all (\<lambda>operand. isProjectedPermutation (snd operand))
             (getDpsInputOperands g linalgOp)) h"
| "evalPredicate rec g (InputMatcher position operandMatcher optional) h linalgOp =
     (let transformedPosition = resolve position (getNumDpsInputs g linalgOp)
      in if transformedPosition \<ge> int (getNumDpsInputs g linalgOp) then pure False h
         else (case index (getDpsInputOperands g linalgOp) transformedPosition of
                 Inl e \<Rightarrow> Inl e
               | Inr operand \<Rightarrow>
                   (case getDefiningOp (fst operand) of
                      None \<Rightarrow> pure optional h
                    | Some definingOp \<Rightarrow> orOptional optional (rec h operandMatcher definingOp))))"
| "evalPredicate rec g (InputSubsetOf position subsetMatcher) h linalgOp =
     (let transformedPosition = resolve position (getNumDpsInputs g linalgOp)
      in if transformedPosition \<ge> int (getNumDpsInputs g linalgOp) then pure False h
         else (case index (getDpsInputOperands g linalgOp) transformedPosition of
                 Inl e \<Rightarrow> Inl e
               | Inr operand \<Rightarrow>
                   (case traverseSubsetsBackwards g (fst operand) of
                      None \<Rightarrow> Inl Diverges
                    | Some (Inl e) \<Rightarrow> Inl e
                    | Some (Inr producer) \<Rightarrow> rec h subsetMatcher producer)))"
| "evalPredicate rec g (OutputNumEqualsTo num) h linalgOp =
     pure (getNumDpsInits g linalgOp = num) h"
| "evalPredicate rec g OutputAllOperandsIsPermutation h linalgOp =
     pure (list_all (\<lambda>operand. isPermutation (snd operand)) (getDpsInitOperands g linalgOp)) h"
| "evalPredicate rec g OutputAllOperandsIsProjectedPermutation h linalgOp =
     pure (list_all (\<lambda>operand. isProjectedPermutation (snd operand))
             (getDpsInitOperands g linalgOp)) h"
| "evalPredicate rec g (OutputElementTypeBitWidth position width) h linalgOp =
     (let updatedPosition = resolve position (getNumDpsInits g linalgOp)
      in if updatedPosition \<ge> int (getNumDpsInits g linalgOp) then pure False h
         else (case index (getDpsInitOperands g linalgOp) updatedPosition of
                 Inl e \<Rightarrow> Inl e
               | Inr operand \<Rightarrow>
                   (case initElementBitWidth g linalgOp (nat updatedPosition) of
                      None \<Rightarrow> pure False h
                    | Some w \<Rightarrow> pure (w = width) h)))"
| "evalPredicate rec g (OutputSingleCombinerReduction position) h linalgOp =
     (let updatedPosition = resolve position (getNumDpsInits g linalgOp)
      in if updatedPosition \<ge> int (getNumDpsInits g linalgOp) then pure False h
         else if updatedPosition < 0 then Inl OutOfBounds
         else (case matchReduction g linalgOp (nat updatedPosition) of
                 None \<Rightarrow> pure False h
               | Some numCombinerOps \<Rightarrow> pure (numCombinerOps = 1) h))"
| "evalPredicate rec g (OutputMatcher position operandMatcher optional) h linalgOp =
     (let transformedPosition = resolve position (getNumDpsInits g linalgOp)
      in if transformedPosition \<ge> int (getNumDpsInits g linalgOp) then pure False h
         else (case index (getDpsInitOperands g linalgOp) transformedPosition of
                 Inl e \<Rightarrow> Inl e
               | Inr operand \<Rightarrow>
                   (case getDefiningOp (fst operand) of
                      None \<Rightarrow> pure optional h
                    | Some definingOp \<Rightarrow> orOptional optional (rec h operandMatcher definingOp))))"
| "evalPredicate rec g (OutputSubsetOf position subsetMatcher) h linalgOp =
     (let transformedPosition = resolve position (getNumDpsInputs g linalgOp)
      in if transformedPosition \<ge> int (getNumDpsInputs g linalgOp) then pure False h
         else (case index (getDpsInitOperands g linalgOp) transformedPosition of
                 Inl e \<Rightarrow> Inl e
               | Inr operand \<Rightarrow>
                   (case traverseSubsetsBackwards g (fst operand) of
                      None \<Rightarrow> Inl Diverges
                    | Some (Inl e) \<Rightarrow> Inl e
                    | Some (Inr producer) \<Rightarrow> rec h subsetMatcher producer)))"
| "evalPredicate rec g (ResultHasAnyUse position resultUserMatcher optional) h linalgOp =
     (let transformedPosition = resolve position (getNumResults g linalgOp)
      in if transformedPosition \<ge> int (getNumResults g linalgOp) then pure False h
         else if transformedPosition < 0 then Inl OutOfBounds
         else orOptional optional
                (anyOfUsers rec resultUserMatcher
                   (getUsers g (OpResult linalgOp (nat transformedPosition))) h))"
| "evalPredicate rec g (ResultHasAnyUseSubsetOf position subsetMatcher optional) h linalgOp =
     (let transformedPosition = resolve position (getNumResults g linalgOp)
      in if transformedPosition \<ge> int (getNumResults g linalgOp) then pure False h
         else if transformedPosition < 0 then Inl OutOfBounds
         else (case traverseSubsetsForwardAnyUse g (OpResult linalgOp (nat transformedPosition)) of
                 None \<Rightarrow> Inl Diverges
               | Some user \<Rightarrow> orOptional optional (rec h subsetMatcher user)))"
| "evalPredicate rec g (AllTilableOpsCaptured scope copy) h linalgOp =
     (let parent = getParentOfType g linalgOp scope
      in pure (checkAllTilableMatched g h parent linalgOp copy) h)"

text \<open>\<^verbatim>\<open>llvm::all_of(predicates, fn)\<close> stops at the first predicate that fails.\<close>

fun allOf :: "(predicate \<Rightarrow> heap \<Rightarrow> outcome) \<Rightarrow> predicate list \<Rightarrow> heap \<Rightarrow> outcome" where
  "allOf fn [] h = Inr (True, h)"
| "allOf fn (p # ps) h =
     (case fn p h of
        Inl e \<Rightarrow> Inl e
      | Inr (b, h') \<Rightarrow> if b then allOf fn ps h' else Inr (False, h'))"

text \<open>
  \<^verbatim>\<open>StructuredOpMatcher::match\<close>, called on the matcher at \<open>m\<close>. The closures call
  \<open>match\<close> on the matchers they refer to; the first argument bounds the depth of these
  calls.
\<close>

primrec match :: "nat \<Rightarrow> ir \<Rightarrow> heap \<Rightarrow> matcher_ref \<Rightarrow> op_ref \<Rightarrow> outcome" where
  "match 0 g h m op = Inl OutOfFuel"
| "match (Suc n) g h m op =
     (if isLinalgOp g op
      then (case allOf (\<lambda>fn h'. evalPredicate (match n g) g fn h' op) (predicates h m) h of
              Inl e \<Rightarrow> Inl e
            | Inr (b, h') \<Rightarrow>
                if b then Inr (True, h'\<lparr>captured := (captured h')(m := Some op)\<rparr>)
                else Inr (False, h'))
      else Inr (False, h))"

text \<open>\<^verbatim>\<open>resetCapture\<close>: clears the capture of the matcher at \<open>m\<close>, then calls
  \<open>resetCapture\<close> on each entry of its list of nested matchers. The first argument
  bounds the depth of these calls.\<close>

fun forEachNested ::
  "(matcher_ref \<Rightarrow> heap \<Rightarrow> heap option) \<Rightarrow> matcher_ref list \<Rightarrow> heap \<Rightarrow> heap option" where
  "forEachNested f [] h = Some h"
| "forEachNested f (nested # rest) h =
     (case f nested h of None \<Rightarrow> None | Some h' \<Rightarrow> forEachNested f rest h')"

primrec resetCapture :: "nat \<Rightarrow> matcher_ref \<Rightarrow> heap \<Rightarrow> heap option" where
  "resetCapture 0 m h = None"
| "resetCapture (Suc n) m h =
     forEachNested (resetCapture n) (nestedCapturingMatchers h m)
       (h\<lparr>captured := (captured h)(m := None)\<rparr>)"

section \<open>The fluent interface\<close>

text \<open>Each method appends one closure to \<open>predicates\<close> of the matcher it is called on
  (\<open>m\<close>); the methods that take a nested matcher also record it.\<close>

definition addPredicate :: "matcher_ref \<Rightarrow> predicate \<Rightarrow> heap \<Rightarrow> heap" where
  "addPredicate m p h = h\<lparr>predicates := (predicates h)(m := predicates h m @ [p])\<rparr>"

definition recordNestedMatcher :: "matcher_ref \<Rightarrow> matcher_ref \<Rightarrow> heap \<Rightarrow> heap" where
  "recordNestedMatcher m nested h =
     (let h1 = h\<lparr>nestedCapturingMatchers :=
                   (nestedCapturingMatchers h)(m := nestedCapturingMatchers h m @ [nested])\<rparr>
      in h1\<lparr>nestedCapturingMatchers :=
               (nestedCapturingMatchers h1)
                 (m := nestedCapturingMatchers h1 m @ nestedCapturingMatchers h1 nested)\<rparr>)"

definition m_StructuredOp :: "matcher_ref \<Rightarrow> heap \<Rightarrow> heap" where
  "m_StructuredOp m h =
     h\<lparr>predicates := (predicates h)(m := []),
       nestedCapturingMatchers := (nestedCapturingMatchers h)(m := []),
       captured := (captured h)(m := None)\<rparr>"

definition m_StructuredOp_of :: "OpKind list \<Rightarrow> matcher_ref \<Rightarrow> heap \<Rightarrow> heap" where
  "m_StructuredOp_of kinds m h = addPredicate m (IsaOp kinds) (m_StructuredOp m h)"

definition rank_NumGreaterEqualTo :: "matcher_ref \<Rightarrow> nat \<Rightarrow> heap \<Rightarrow> heap" where
  "rank_NumGreaterEqualTo m minRank h = addPredicate m (RankNumGreaterEqualTo minRank) h"

definition rank_NumLowerEqualTo :: "matcher_ref \<Rightarrow> nat \<Rightarrow> heap \<Rightarrow> heap" where
  "rank_NumLowerEqualTo m maxRank h = addPredicate m (RankNumLowerEqualTo maxRank) h"

definition dim_list_ShapeKind :: "matcher_ref \<Rightarrow> int list \<Rightarrow> ShapeKind \<Rightarrow> heap \<Rightarrow> heap" where
  "dim_list_ShapeKind m dimensions kind h = addPredicate m (DimsShapeKind dimensions kind) h"

definition dim_ShapeKind :: "matcher_ref \<Rightarrow> int \<Rightarrow> ShapeKind \<Rightarrow> heap \<Rightarrow> heap" where
  "dim_ShapeKind m dimension kind h = dim_list_ShapeKind m [dimension] kind h"

definition dim_AllDims_ShapeKind :: "matcher_ref \<Rightarrow> ShapeKind \<Rightarrow> heap \<Rightarrow> heap" where
  "dim_AllDims_ShapeKind m kind h = addPredicate m (AllDimsShapeKind kind) h"

definition dim_list_IteratorType ::
  "matcher_ref \<Rightarrow> int list \<Rightarrow> IteratorType \<Rightarrow> heap \<Rightarrow> heap" where
  "dim_list_IteratorType m dimensions kind h =
     addPredicate m (DimsIteratorType dimensions kind) h"

definition dim_IteratorType :: "matcher_ref \<Rightarrow> int \<Rightarrow> IteratorType \<Rightarrow> heap \<Rightarrow> heap" where
  "dim_IteratorType m dimension kind h = dim_list_IteratorType m [dimension] kind h"

definition dim_AllDimsExcept_IteratorType ::
  "matcher_ref \<Rightarrow> int list \<Rightarrow> IteratorType \<Rightarrow> heap \<Rightarrow> heap" where
  "dim_AllDimsExcept_IteratorType m dims kind h =
     addPredicate m (AllDimsExceptIteratorType dims kind) h"

definition dim_AllDims_IteratorType :: "matcher_ref \<Rightarrow> IteratorType \<Rightarrow> heap \<Rightarrow> heap" where
  "dim_AllDims_IteratorType m kind h = dim_AllDimsExcept_IteratorType m [] kind h"

definition dim_DivisibleBy :: "matcher_ref \<Rightarrow> int \<Rightarrow> int \<Rightarrow> heap \<Rightarrow> heap" where
  "dim_DivisibleBy m dimension divisibleBy h =
     addPredicate m (DimDivisibleBy dimension divisibleBy) h"

definition rank_CaptureStaticValue :: "matcher_ref \<Rightarrow> cell_ref \<Rightarrow> heap \<Rightarrow> heap" where
  "rank_CaptureStaticValue m capture h = addPredicate m (RankCaptureStaticValue capture) h"

definition dim_CaptureStaticValue :: "matcher_ref \<Rightarrow> int \<Rightarrow> cell_ref \<Rightarrow> heap \<Rightarrow> heap" where
  "dim_CaptureStaticValue m dimension capture h =
     addPredicate m (DimCaptureStaticValue dimension capture) h"

definition input_NumEqualsTo :: "matcher_ref \<Rightarrow> nat \<Rightarrow> heap \<Rightarrow> heap" where
  "input_NumEqualsTo m num h = addPredicate m (InputNumEqualsTo num) h"

definition input_AllOperands_IsPermutation :: "matcher_ref \<Rightarrow> heap \<Rightarrow> heap" where
  "input_AllOperands_IsPermutation m h = addPredicate m InputAllOperandsIsPermutation h"

definition input_AllOperands_IsProjectedPermutation :: "matcher_ref \<Rightarrow> heap \<Rightarrow> heap" where
  "input_AllOperands_IsProjectedPermutation m h =
     addPredicate m InputAllOperandsIsProjectedPermutation h"

definition input_matcher :: "matcher_ref \<Rightarrow> int \<Rightarrow> matcher_ref \<Rightarrow> bool \<Rightarrow> heap \<Rightarrow> heap" where
  "input_matcher m position operandMatcher optional h =
     recordNestedMatcher m operandMatcher
       (addPredicate m (InputMatcher position operandMatcher optional) h)"

definition input_SubsetOf :: "matcher_ref \<Rightarrow> int \<Rightarrow> matcher_ref \<Rightarrow> heap \<Rightarrow> heap" where
  "input_SubsetOf m position subsetMatcher h =
     recordNestedMatcher m subsetMatcher (addPredicate m (InputSubsetOf position subsetMatcher) h)"

definition allTilableOpsCaptured :: "matcher_ref \<Rightarrow> OpKind \<Rightarrow> heap \<Rightarrow> heap" where
  "allTilableOpsCaptured m scope h =
     (let copy = nestedCapturingMatchers h m
      in addPredicate m (AllTilableOpsCaptured scope copy) h)"

definition output_SubsetOf :: "matcher_ref \<Rightarrow> int \<Rightarrow> matcher_ref \<Rightarrow> heap \<Rightarrow> heap" where
  "output_SubsetOf m position subsetMatcher h =
     recordNestedMatcher m subsetMatcher (addPredicate m (OutputSubsetOf position subsetMatcher) h)"

definition output_NumEqualsTo :: "matcher_ref \<Rightarrow> nat \<Rightarrow> heap \<Rightarrow> heap" where
  "output_NumEqualsTo m num h = addPredicate m (OutputNumEqualsTo num) h"

definition output_AllOperands_IsPermutation :: "matcher_ref \<Rightarrow> heap \<Rightarrow> heap" where
  "output_AllOperands_IsPermutation m h = addPredicate m OutputAllOperandsIsPermutation h"

definition output_AllOperands_IsProjectedPermutation :: "matcher_ref \<Rightarrow> heap \<Rightarrow> heap" where
  "output_AllOperands_IsProjectedPermutation m h =
     addPredicate m OutputAllOperandsIsProjectedPermutation h"

definition output_ElementTypeBitWidth :: "matcher_ref \<Rightarrow> int \<Rightarrow> nat \<Rightarrow> heap \<Rightarrow> heap" where
  "output_ElementTypeBitWidth m position width h =
     addPredicate m (OutputElementTypeBitWidth position width) h"

definition output_SingleCombinerReduction :: "matcher_ref \<Rightarrow> int \<Rightarrow> heap \<Rightarrow> heap" where
  "output_SingleCombinerReduction m position h =
     addPredicate m (OutputSingleCombinerReduction position) h"

definition output_matcher :: "matcher_ref \<Rightarrow> int \<Rightarrow> matcher_ref \<Rightarrow> bool \<Rightarrow> heap \<Rightarrow> heap" where
  "output_matcher m position operandMatcher optional h =
     recordNestedMatcher m operandMatcher
       (addPredicate m (OutputMatcher position operandMatcher optional) h)"

definition result_HasAnyUse ::
  "matcher_ref \<Rightarrow> int \<Rightarrow> matcher_ref \<Rightarrow> bool \<Rightarrow> heap \<Rightarrow> heap" where
  "result_HasAnyUse m position resultUserMatcher optional h =
     recordNestedMatcher m resultUserMatcher
       (addPredicate m (ResultHasAnyUse position resultUserMatcher optional) h)"

definition result_HasAnyUse_SubsetOf ::
  "matcher_ref \<Rightarrow> int \<Rightarrow> matcher_ref \<Rightarrow> bool \<Rightarrow> heap \<Rightarrow> heap" where
  "result_HasAnyUse_SubsetOf m position subsetMatcher optional h =
     recordNestedMatcher m subsetMatcher
       (addPredicate m (ResultHasAnyUseSubsetOf position subsetMatcher optional) h)"

section \<open>Notions of the statements and proofs\<close>

subsection \<open>What a closure does to the heap\<close>

text \<open>
  For the proofs, every closure is one of six steps: it stops the program, returns a
  verdict, writes an integer and succeeds, calls \<open>match\<close> on a nested matcher for one
  operation or for the users of a result, or reads the captures of a list of matchers.
  \<open>planOf\<close> computes the step from the graph alone; \<open>evalPredicate_plan\<close> below shows
  that running the step is running the closure.
\<close>

datatype plan =
    Crash error
  | Verdict bool
  | WriteCell cell_ref int
  | Nested matcher_ref op_ref bool
  | AnyUser matcher_ref "op_ref list" bool
  | Exhaustive "op_ref option" "matcher_ref list"

fun runPlan ::
  "(heap \<Rightarrow> matcher_ref \<Rightarrow> op_ref \<Rightarrow> outcome) \<Rightarrow> ir \<Rightarrow> plan \<Rightarrow> heap \<Rightarrow> op_ref \<Rightarrow> outcome" where
  "runPlan rec g (Crash e) h linalgOp = Inl e"
| "runPlan rec g (Verdict b) h linalgOp = pure b h"
| "runPlan rec g (WriteCell c v) h linalgOp = pure True (h\<lparr>cells := (cells h)(c := v)\<rparr>)"
| "runPlan rec g (Nested m d optional) h linalgOp = orOptional optional (rec h m d)"
| "runPlan rec g (AnyUser m us optional) h linalgOp =
     orOptional optional (anyOfUsers rec m us h)"
| "runPlan rec g (Exhaustive parent copy) h linalgOp =
     pure (checkAllTilableMatched g h parent linalgOp copy) h"

definition operandPlan ::
  "(Value \<times> IndexingMap) list \<Rightarrow> nat \<Rightarrow> int \<Rightarrow> matcher_ref \<Rightarrow> bool \<Rightarrow> plan" where
  "operandPlan operands n position m optional =
     (let t = resolve position n
      in if t \<ge> int n then Verdict False
         else (case index operands t of
                 Inl e \<Rightarrow> Crash e
               | Inr operand \<Rightarrow>
                   (case getDefiningOp (fst operand) of
                      None \<Rightarrow> Verdict optional
                    | Some d \<Rightarrow> Nested m d optional)))"

definition subsetPlan ::
  "ir \<Rightarrow> (Value \<times> IndexingMap) list \<Rightarrow> nat \<Rightarrow> int \<Rightarrow> matcher_ref \<Rightarrow> plan" where
  "subsetPlan g operands n position m =
     (let t = resolve position n
      in if t \<ge> int n then Verdict False
         else (case index operands t of
                 Inl e \<Rightarrow> Crash e
               | Inr operand \<Rightarrow>
                   (case traverseSubsetsBackwards g (fst operand) of
                      None \<Rightarrow> Crash Diverges
                    | Some (Inl e) \<Rightarrow> Crash e
                    | Some (Inr producer) \<Rightarrow> Nested m producer False)))"

fun planOf :: "ir \<Rightarrow> predicate \<Rightarrow> op_ref \<Rightarrow> plan" where
  "planOf g (IsaOp kinds) op = Verdict (opKind g op \<in> set kinds)"
| "planOf g (RankNumGreaterEqualTo minRank) op = Verdict (getNumLoops g op \<ge> minRank)"
| "planOf g (RankNumLowerEqualTo maxRank) op = Verdict (getNumLoops g op \<le> maxRank)"
| "planOf g (DimsShapeKind dimensions kind) op =
     Verdict (dimsShapeKindLoop (getStaticLoopRanges g op) kind dimensions)"
| "planOf g (AllDimsShapeKind kind) op =
     Verdict (list_all (\<lambda>dimension. isDynamic dimension \<noteq> (kind = Static))
                (getStaticLoopRanges g op))"
| "planOf g (DimsIteratorType dimensions kind) op =
     Verdict (dimsIteratorTypeLoop (getIteratorTypesArray g op) kind dimensions)"
| "planOf g (AllDimsExceptIteratorType excluded kind) op =
     Verdict (allDimsExceptLoop (map (\<lambda>d. resolve d (getNumLoops g op)) excluded) kind
                (enumerate 0 (getIteratorTypesArray g op)))"
| "planOf g (DimDivisibleBy dimension divisor) op =
     (let t = resolve dimension (getNumLoops g op)
      in if t \<ge> int (getNumLoops g op) then Verdict False
         else (case index (getStaticLoopRanges g op) t of
                 Inl e \<Rightarrow> Crash e
               | Inr dimSize \<Rightarrow>
                   if isDynamic dimSize then Verdict False
                   else if divisor = 0 then Crash DivisionByZero
                   else Verdict (cRem dimSize divisor = 0)))"
| "planOf g (RankCaptureStaticValue c) op = WriteCell c (int (getNumLoops g op))"
| "planOf g (DimCaptureStaticValue dimension c) op =
     (let t = resolve dimension (getNumLoops g op)
      in if t \<ge> int (getNumLoops g op) then Verdict False
         else (case index (getStaticLoopRanges g op) t of
                 Inl e \<Rightarrow> Crash e
               | Inr dimSize \<Rightarrow> WriteCell c dimSize))"
| "planOf g (InputNumEqualsTo num) op = Verdict (getNumDpsInputs g op = num)"
| "planOf g InputAllOperandsIsPermutation op =
     Verdict (list_all (\<lambda>operand. isPermutation (snd operand)) (getDpsInputOperands g op))"
| "planOf g InputAllOperandsIsProjectedPermutation op =
     Verdict (list_all (\<lambda>operand. isProjectedPermutation (snd operand))
                (getDpsInputOperands g op))"
| "planOf g (InputMatcher position m optional) op =
     operandPlan (getDpsInputOperands g op) (getNumDpsInputs g op) position m optional"
| "planOf g (InputSubsetOf position m) op =
     subsetPlan g (getDpsInputOperands g op) (getNumDpsInputs g op) position m"
| "planOf g (OutputNumEqualsTo num) op = Verdict (getNumDpsInits g op = num)"
| "planOf g OutputAllOperandsIsPermutation op =
     Verdict (list_all (\<lambda>operand. isPermutation (snd operand)) (getDpsInitOperands g op))"
| "planOf g OutputAllOperandsIsProjectedPermutation op =
     Verdict (list_all (\<lambda>operand. isProjectedPermutation (snd operand))
                (getDpsInitOperands g op))"
| "planOf g (OutputElementTypeBitWidth position width) op =
     (let t = resolve position (getNumDpsInits g op)
      in if t \<ge> int (getNumDpsInits g op) then Verdict False
         else (case index (getDpsInitOperands g op) t of
                 Inl e \<Rightarrow> Crash e
               | Inr operand \<Rightarrow>
                   (case initElementBitWidth g op (nat t) of
                      None \<Rightarrow> Verdict False
                    | Some w \<Rightarrow> Verdict (w = width))))"
| "planOf g (OutputSingleCombinerReduction position) op =
     (let t = resolve position (getNumDpsInits g op)
      in if t \<ge> int (getNumDpsInits g op) then Verdict False
         else if t < 0 then Crash OutOfBounds
         else (case matchReduction g op (nat t) of
                 None \<Rightarrow> Verdict False
               | Some numCombinerOps \<Rightarrow> Verdict (numCombinerOps = 1)))"
| "planOf g (OutputMatcher position m optional) op =
     operandPlan (getDpsInitOperands g op) (getNumDpsInits g op) position m optional"
| "planOf g (OutputSubsetOf position m) op =
     subsetPlan g (getDpsInitOperands g op) (getNumDpsInputs g op) position m"
| "planOf g (ResultHasAnyUse position m optional) op =
     (let t = resolve position (getNumResults g op)
      in if t \<ge> int (getNumResults g op) then Verdict False
         else if t < 0 then Crash OutOfBounds
         else AnyUser m (getUsers g (OpResult op (nat t))) optional)"
| "planOf g (ResultHasAnyUseSubsetOf position m optional) op =
     (let t = resolve position (getNumResults g op)
      in if t \<ge> int (getNumResults g op) then Verdict False
         else if t < 0 then Crash OutOfBounds
         else (case traverseSubsetsForwardAnyUse g (OpResult op (nat t)) of
                 None \<Rightarrow> Crash Diverges
               | Some user \<Rightarrow> Nested m user optional))"
| "planOf g (AllTilableOpsCaptured scope copy) op = Exhaustive (getParentOfType g op scope) copy"

text \<open>The matchers a closure calls \<open>match\<close> on, and whether it reads captures.\<close>

fun predicateCalls :: "predicate \<Rightarrow> matcher_ref list" where
  "predicateCalls (InputMatcher position m optional) = [m]"
| "predicateCalls (OutputMatcher position m optional) = [m]"
| "predicateCalls (InputSubsetOf position m) = [m]"
| "predicateCalls (OutputSubsetOf position m) = [m]"
| "predicateCalls (ResultHasAnyUse position m optional) = [m]"
| "predicateCalls (ResultHasAnyUseSubsetOf position m optional) = [m]"
| "predicateCalls p = []"

fun readsCaptures :: "predicate \<Rightarrow> bool" where
  "readsCaptures (AllTilableOpsCaptured scope copy) = True"
| "readsCaptures p = False"

definition callsWithin :: "matcher_ref list \<Rightarrow> predicate \<Rightarrow> bool" where
  "callsWithin rs p = list_all (\<lambda>m. m \<in> set rs) (predicateCalls p)"

text \<open>\<open>rs\<close> is closed under calls: the closures of its matchers call matchers of \<open>rs\<close>
  only.\<close>

definition closedUnderCalls :: "heap \<Rightarrow> matcher_ref list \<Rightarrow> bool" where
  "closedUnderCalls h rs = list_all (\<lambda>r. list_all (callsWithin rs) (predicates h r)) rs"

text \<open>The matcher a step calls.\<close>

fun planCalls :: "plan \<Rightarrow> matcher_ref list" where
  "planCalls (Nested m d optional) = [m]"
| "planCalls (AnyUser m us optional) = [m]"
| "planCalls pl = []"

text \<open>From \<open>h\<close> to \<open>h'\<close> the closures and the lists of nested matchers are the same,
  and so are the captures of the matchers of \<open>K\<close>.\<close>

definition keeps :: "matcher_ref set \<Rightarrow> heap \<Rightarrow> heap \<Rightarrow> bool" where
  "keeps K h h' =
     (predicates h' = predicates h \<and>
      nestedCapturingMatchers h' = nestedCapturingMatchers h \<and>
      (\<forall>x. x \<in> K \<longrightarrow> captured h' x = captured h x))"

text \<open>Whether a step reads the captures.\<close>

fun planReads :: "plan \<Rightarrow> bool" where
  "planReads (Exhaustive parent copy) = True"
| "planReads pl = False"

text \<open>
  Two runs, one from \<open>h\<close> to \<open>h1\<close> and one from \<open>k\<close> to \<open>k1\<close>, made the same writes:
  each capture and each integer was left alone by both or ends with the same content in
  both. Two outcomes are the same when both stop with the same error or both return the
  same verdict after the same writes.
\<close>

definition sameWrites :: "heap \<Rightarrow> heap \<Rightarrow> heap \<Rightarrow> heap \<Rightarrow> bool" where
  "sameWrites h h1 k k1 =
     (predicates h1 = predicates h \<and> predicates k1 = predicates k \<and>
      nestedCapturingMatchers h1 = nestedCapturingMatchers h \<and>
      nestedCapturingMatchers k1 = nestedCapturingMatchers k \<and>
      (\<forall>m. captured h1 m = captured k1 m \<or>
            (captured h1 m = captured h m \<and> captured k1 m = captured k m)) \<and>
      (\<forall>c. cells h1 c = cells k1 c \<or> (cells h1 c = cells h c \<and> cells k1 c = cells k c)))"

definition sameOutcome :: "heap \<Rightarrow> heap \<Rightarrow> outcome \<Rightarrow> outcome \<Rightarrow> bool" where
  "sameOutcome h k x y =
     (case x of
        Inl e \<Rightarrow> y = Inl e
      | Inr r \<Rightarrow> (case y of
                    Inl e \<Rightarrow> False
                  | Inr s \<Rightarrow> fst s = fst r \<and> sameWrites h (snd r) k (snd s)))"

text \<open>
  A closure is quiet for \<open>rs\<close> when it calls matchers of \<open>rs\<close> only and does not read
  captures (it is not the exhaustiveness predicate). \<open>exhaustiveLast rs m ps\<close>: the
  closures \<open>ps\<close> of the matcher \<open>m\<close> are quiet, but for the last, which may be the
  exhaustiveness predicate over a list that does not hold \<open>m\<close>.
\<close>

definition quiet :: "matcher_ref list \<Rightarrow> predicate \<Rightarrow> bool" where
  "quiet rs p = (callsWithin rs p \<and> \<not> readsCaptures p)"

definition closedQuiet :: "heap \<Rightarrow> matcher_ref list \<Rightarrow> bool" where
  "closedQuiet h rs = list_all (\<lambda>r. list_all (quiet rs) (predicates h r)) rs"

definition exhaustiveLast :: "matcher_ref list \<Rightarrow> matcher_ref \<Rightarrow> predicate list \<Rightarrow> bool" where
  "exhaustiveLast rs m ps =
     (case rev ps of
        [] \<Rightarrow> True
      | p # before \<Rightarrow>
          list_all (quiet rs) before \<and>
          (case p of
             AllTilableOpsCaptured scope copy \<Rightarrow> m \<notin> set copy
           | _ \<Rightarrow> quiet rs p))"

subsection \<open>Nested matchers reached by a reset\<close>

text \<open>\<open>reaches N m x\<close>: the matcher \<open>x\<close> is \<open>m\<close> or is found from \<open>m\<close> through the
  lists of nested matchers \<open>N\<close>. \<open>nestingBelow n N m\<close>: these lists unfold from \<open>m\<close> to a
  depth below \<open>n\<close>, so they hold no cycle that \<open>m\<close> reaches.\<close>

inductive reaches :: "(matcher_ref \<Rightarrow> matcher_ref list) \<Rightarrow> matcher_ref \<Rightarrow> matcher_ref \<Rightarrow> bool"
  for N :: "matcher_ref \<Rightarrow> matcher_ref list" where
  reaches_self: "reaches N m m"
| reaches_nested: "r \<in> set (N m) \<Longrightarrow> reaches N r x \<Longrightarrow> reaches N m x"

primrec nestingBelow :: "nat \<Rightarrow> (matcher_ref \<Rightarrow> matcher_ref list) \<Rightarrow> matcher_ref \<Rightarrow> bool" where
  "nestingBelow 0 N m = False"
| "nestingBelow (Suc n) N m = list_all (nestingBelow n N) (N m)"

text \<open>From \<open>h\<close> to \<open>h'\<close> the captures of the matchers of \<open>S\<close> were set to null and
  nothing else changed.\<close>

definition clearedOn :: "matcher_ref set \<Rightarrow> heap \<Rightarrow> heap \<Rightarrow> bool" where
  "clearedOn S h h' =
     (predicates h' = predicates h \<and>
      nestedCapturingMatchers h' = nestedCapturingMatchers h \<and>
      cells h' = cells h \<and>
      (\<forall>x. captured h' x = (if x \<in> S then None else captured h x)))"

section \<open>Example graphs and matchers\<close>

text \<open>A graph with no structured operation, and a heap with no predicate, no capture
  and every integer zero. The examples below override the queries they need.\<close>

definition emptyIR :: ir where
  "emptyIR = \<lparr>isLinalgOp = (\<lambda>_. False), opKind = (\<lambda>_. OtherOp),
     getIteratorTypesArray = (\<lambda>_. []), getStaticLoopRanges = (\<lambda>_. []),
     getDpsInputOperands = (\<lambda>_. []), getDpsInitOperands = (\<lambda>_. []),
     getOperands = (\<lambda>_. []), getNumResults = (\<lambda>_. 0), getUses = (\<lambda>_. []),
     getParentOfType = (\<lambda>_ _. None), walkTilingInterface = (\<lambda>_. []),
     initElementBitWidth = (\<lambda>_ _. None), matchReduction = (\<lambda>_ _. None),
     getRank = (\<lambda>_. 0)\<rparr>"

definition emptyHeap :: heap where
  "emptyHeap = \<lparr>predicates = (\<lambda>_. []), nestedCapturingMatchers = (\<lambda>_. []),
     captured = (\<lambda>_. None), cells = (\<lambda>_. 0)\<rparr>"

text \<open>A carrier with the groups \<open>[7, 8]\<close>, \<open>[]\<close> and \<open>[9]\<close>.\<close>

definition carrierExample :: MatchCallbackResult where
  "carrierExample = \<lparr>payloadOperations = [7, 8, 9], payloadGroupLengths = [2, 0, 1]\<rparr>"

text \<open>Every operation is a structured operation with the loops (parallel, reduction)
  of sizes 4 and 8.\<close>

definition irRank2 :: ir where
  "irRank2 = emptyIR\<lparr>isLinalgOp := (\<lambda>_. True),
      getIteratorTypesArray := (\<lambda>_. [parallel, reduction]),
      getStaticLoopRanges := (\<lambda>_. [4, 8])\<rparr>"

text \<open>
  Operation 1 produces a value that is the shared output (operand 1) of the
  \<^verbatim>\<open>scf.foreach_thread\<close> 2, which has one thread index; the output block argument of
  the loop is used by operation 3.
\<close>

definition irTie :: ir where
  "irTie = emptyIR\<lparr>
      opKind := (\<lambda>op. if op = 2 then ForeachThreadOp else OtherOp),
      getOperands := (\<lambda>op. if op = 2 then [OpResult 0 0, OpResult 1 0]
                           else if op = 3 then [BlockArgument (Some 2) 1] else []),
      getRank := (\<lambda>op. if op = 2 then 1 else 0),
      getUses := (\<lambda>v. if v = OpResult 1 0 then [(2, 1)]
                        else if v = BlockArgument (Some 2) 1 then [(3, 0)] else [])\<rparr>"

text \<open>
  Operation 10 has no input and one init, operation 12 has two inputs (block
  arguments) and one init; both inits are the result of the structured operation 11.
\<close>

definition irOutputs :: ir where
  "irOutputs = emptyIR\<lparr>
      isLinalgOp := (\<lambda>_. True),
      getDpsInputOperands := (\<lambda>op. if op = 12 then [(BlockArgument (Some 20) 0, PermutationMap),
                                                     (BlockArgument (Some 20) 1, PermutationMap)]
                                    else []),
      getDpsInitOperands := (\<lambda>op. if op = 10 \<or> op = 12 then [(OpResult 11 0, PermutationMap)]
                                   else [])\<rparr>"

text \<open>
  Operation 10 has two inputs: the result of the structured operation 11 (of rank 2)
  and a block argument. The matcher at 1 captures the rank in the integer 0 and then
  asks for a rank of at least 3.
\<close>

definition irInputs :: ir where
  "irInputs = emptyIR\<lparr>
      isLinalgOp := (\<lambda>_. True),
      getIteratorTypesArray := (\<lambda>_. [parallel, reduction]),
      getStaticLoopRanges := (\<lambda>_. [4, 8]),
      getDpsInputOperands := (\<lambda>op. if op = 10 then [(OpResult 11 0, PermutationMap),
                                                     (BlockArgument (Some 20) 0, PermutationMap)]
                                    else [])\<rparr>"

definition heapInputs :: heap where
  "heapInputs = rank_NumGreaterEqualTo 1 3 (rank_CaptureStaticValue 1 0 emptyHeap)"

text \<open>The matcher at 0 asks its input 0 to match the matcher at 1 (optionally) and
  then asks for a rank of at least 3; the matcher at 1 accepts every structured
  operation.\<close>

definition heapNested :: heap where
  "heapNested = rank_NumGreaterEqualTo 0 3 (input_matcher 0 0 1 True emptyHeap)"

text \<open>
  Operation 10 (rank 2) takes the result of 11 (rank 2), which takes the result of 12
  (rank 3), which takes a block argument. The matchers at 0 and 1 refer to each other:
  built by \<^verbatim>\<open>a.input(0, b, OptionalMatch()); b.input(0, a, OptionalMatch());
  b.rank(NumGreaterEqualTo(3));\<close>
\<close>

definition irChain :: ir where
  "irChain = emptyIR\<lparr>
      isLinalgOp := (\<lambda>_. True),
      getIteratorTypesArray := (\<lambda>op. if op = 12 then [parallel, parallel, reduction]
                                     else [parallel, reduction]),
      getDpsInputOperands := (\<lambda>op. if op = 10 then [(OpResult 11 0, PermutationMap)]
                                    else if op = 11 then [(OpResult 12 0, PermutationMap)]
                                    else [(BlockArgument (Some 20) 0, PermutationMap)])\<rparr>"

definition heapCyclic :: heap where
  "heapCyclic =
     rank_NumGreaterEqualTo 1 3
       (input_matcher 1 0 0 True (input_matcher 0 0 1 True emptyHeap))"

text \<open>The matcher at 0 is \<^verbatim>\<open>m_StructuredOp().rank(CaptureStaticValue<int64_t>(c))\<close>
  with \<open>c\<close> the integer at 0, which is 0 before the match.\<close>

definition heapCaptureRank :: heap where
  "heapCaptureRank = rank_CaptureStaticValue 0 0 emptyHeap"

text \<open>The matcher 1 is \<^verbatim>\<open>.input(0, m2)\<close> and the matcher 0 is \<^verbatim>\<open>.input(0, m1)\<close>: the
  list of nested matchers of 1 is \<open>[2]\<close>, the one of 0 is \<open>[1, 2]\<close>. The matchers 0 to 3
  hold a capture and every integer is 7.\<close>

definition heapTree :: heap where
  "heapTree =
     (input_matcher 0 0 1 False (input_matcher 1 0 2 False emptyHeap))\<lparr>
        captured := (\<lambda>m. if m \<le> 3 then Some (10 + m) else None),
        cells := (\<lambda>_. 7)\<rparr>"

text \<open>
  A function 20 with two structured operations, both with the tiling interface:
  11 takes a block argument, 10 takes the result of 11 and is its only user.
\<close>

definition irPair :: ir where
  "irPair = emptyIR\<lparr>
      isLinalgOp := (\<lambda>_. True),
      getDpsInputOperands := (\<lambda>op. if op = 10 then [(OpResult 11 0, PermutationMap)]
                                    else [(BlockArgument (Some 20) 0, PermutationMap)]),
      getNumResults := (\<lambda>_. 1),
      getUses := (\<lambda>v. if v = OpResult 11 0 then [(10, 0)] else []),
      getParentOfType := (\<lambda>op kind. if kind = FuncOp then Some 20 else None),
      walkTilingInterface := (\<lambda>op. if op = 20 then [11, 10] else [])\<rparr>"

text \<open>
  Four matchers built with the fluent interface: 2 accepts every structured operation;
  1 is \<^verbatim>\<open>.input(0, m2, OptionalMatch()).allTilableOpsCaptured<func::FuncOp>()\<close>;
  3 is \<^verbatim>\<open>.result(0, HasAnyUse(), m2, OptionalMatch())\<close>;
  0 is \<^verbatim>\<open>.input(0, m1, OptionalMatch()).input(0, m3, OptionalMatch())\<close>.
  \<open>heapAfterFirst\<close> and \<open>heapAfterSecond\<close> are the heaps after one and two matches of
  the matcher 0 on operation 10.
\<close>

definition heapNestedExhaustive :: heap where
  "heapNestedExhaustive =
     input_matcher 0 0 3 True
       (input_matcher 0 0 1 True
          (result_HasAnyUse 3 0 2 True
             (allTilableOpsCaptured 1 FuncOp
                (input_matcher 1 0 2 True emptyHeap))))"

definition heapAfterFirst :: heap where
  "heapAfterFirst = heapNestedExhaustive\<lparr>captured :=
      (\<lambda>r. if r = 0 then Some 10 else if r = 2 then Some 10 else if r = 3 then Some 11
            else None)\<rparr>"

definition heapAfterSecond :: heap where
  "heapAfterSecond = heapNestedExhaustive\<lparr>captured :=
      (\<lambda>r. if r = 0 then Some 10 else if r = 1 then Some 11 else if r = 2 then Some 10
            else if r = 3 then Some 11 else None)\<rparr>"

text \<open>The matcher 0 is
  \<^verbatim>\<open>.input(0, m2, OptionalMatch()).allTilableOpsCaptured<func::FuncOp>()\<close>, with the
  exhaustiveness predicate last; \<open>heapRootAfter\<close> is the heap after it matched 10.\<close>

definition heapRootExhaustive :: heap where
  "heapRootExhaustive = allTilableOpsCaptured 0 FuncOp (input_matcher 0 0 2 True emptyHeap)"

definition heapRootAfter :: heap where
  "heapRootAfter = heapRootExhaustive\<lparr>captured :=
      (\<lambda>r. if r = 0 then Some 10 else if r = 2 then Some 11 else None)\<rparr>"

text \<open>Every operation is a structured operation with the loops (parallel, parallel,
  reduction) of sizes 4, 8 and 128.\<close>

definition irRank3 :: ir where
  "irRank3 = emptyIR\<lparr>isLinalgOp := (\<lambda>_. True),
      getIteratorTypesArray := (\<lambda>_. [parallel, parallel, reduction]),
      getStaticLoopRanges := (\<lambda>_. [4, 8, 128])\<rparr>"

text \<open>Operation 1 produces a value; 2 is an \<^verbatim>\<open>extract_slice\<close> of it, 3 an
  \<^verbatim>\<open>extract_slice\<close> of the result of 2, and operation 4 uses the result of 3. Each
  value has one use.\<close>

definition irViews :: ir where
  "irViews = emptyIR\<lparr>
      opKind := (\<lambda>op. if op = 2 \<or> op = 3 then ExtractSliceOp else OtherOp),
      getOperands := (\<lambda>op. if op = 2 then [OpResult 1 0]
                           else if op = 3 then [OpResult 2 0]
                           else if op = 4 then [OpResult 3 0] else []),
      getUses := (\<lambda>v. if v = OpResult 1 0 then [(2, 0)]
                        else if v = OpResult 2 0 then [(3, 0)]
                        else if v = OpResult 3 0 then [(4, 0)] else [])\<rparr>"

text \<open>
  A function 20 with three structured operations, all with the tiling interface:
  12 takes a block argument, 11 takes the result of 12 and 10 takes the result of 11.
\<close>

definition irThree :: ir where
  "irThree = emptyIR\<lparr>
      isLinalgOp := (\<lambda>_. True),
      getDpsInputOperands := (\<lambda>op. if op = 10 then [(OpResult 11 0, PermutationMap)]
                                    else if op = 11 then [(OpResult 12 0, PermutationMap)]
                                    else [(BlockArgument (Some 20) 0, PermutationMap)]),
      getParentOfType := (\<lambda>op kind. if kind = FuncOp then Some 20 else None),
      walkTilingInterface := (\<lambda>op. if op = 20 then [12, 11, 10] else [])\<rparr>"

text \<open>
  Three matchers built from the outside in:
  \<^verbatim>\<open>m0.input(0, m1); m1.input(0, m2); m0.allTilableOpsCaptured<func::FuncOp>();\<close>
  When \<open>m1\<close> is recorded in the list of \<open>m0\<close>, its own list is still empty.
  \<open>heapTopDownAfter\<close> is the heap after the matcher 0 ran on operation 10.
\<close>

definition heapTopDown :: heap where
  "heapTopDown =
     allTilableOpsCaptured 0 FuncOp
       (input_matcher 1 0 2 False (input_matcher 0 0 1 False emptyHeap))"

definition heapTopDownAfter :: heap where
  "heapTopDownAfter = heapTopDown\<lparr>captured :=
      (\<lambda>r. if r = 1 then Some 11 else if r = 2 then Some 12 else None)\<rparr>"

text \<open>
  The same three matchers built from the inside out:
  \<^verbatim>\<open>m1.input(0, m2); m0.input(0, m1); m0.allTilableOpsCaptured<func::FuncOp>();\<close>
  \<open>heapBottomUpAfter\<close> is the heap after the matcher 0 ran on operation 10.
\<close>

definition heapBottomUp :: heap where
  "heapBottomUp =
     allTilableOpsCaptured 0 FuncOp
       (input_matcher 0 0 1 False (input_matcher 1 0 2 False emptyHeap))"

definition heapBottomUpAfter :: heap where
  "heapBottomUpAfter = heapBottomUp\<lparr>captured :=
      (\<lambda>r. if r = 0 then Some 10 else if r = 1 then Some 11 else if r = 2 then Some 12
            else None)\<rparr>"

section \<open>Properties\<close>

text \<open>The definitions that unfold the example matchers and their runs.\<close>

lemmas builder_defs =
  input_matcher_def result_HasAnyUse_def allTilableOpsCaptured_def recordNestedMatcher_def
  rank_NumGreaterEqualTo_def rank_CaptureStaticValue_def addPredicate_def emptyHeap_def Let_def

lemmas run_defs =
  emptyIR_def pure_def orOptional_def getNumLoops_def getNumDpsInputs_def getNumDpsInits_def
  resolve_def index_def getDefiningOp_def getUsers_def checkAllTilableMatched_def
  insertPtr_def getCaptured_def

subsection \<open>The result carrier\<close>


lemma groupStart_sum: "groupStart ls n s = s + sum_list (take n ls)"
  by (induction ls n s rule: groupStart.induct) auto

lemma sum_take_nth_le:
  fixes ls :: "nat list"
  assumes "i < length ls"
  shows "sum_list (take i ls) + ls ! i \<le> sum_list ls"
proof -
  have "ls = take (Suc i) ls @ drop (Suc i) ls" by simp
  then have "sum_list ls = sum_list (take (Suc i) ls) + sum_list (drop (Suc i) ls)"
    by (metis sum_list_append)
  moreover have "take (Suc i) ls = take i ls @ [ls ! i]"
    using assms by (simp add: take_Suc_conv_app_nth)
  ultimately show ?thesis by simp
qed

lemma getPayloadGroup_ok:
  assumes "carrierInv r" and "i < getNumPayloadGroups r"
  shows "getPayloadGroup r i =
           Inr (take (payloadGroupLengths r ! i)
                  (drop (sum_list (take i (payloadGroupLengths r))) (payloadOperations r)))"
  using assms sum_take_nth_le [of i "payloadGroupLengths r"]
  by (simp add: getPayloadGroup_def slice_def groupStart_sum carrierInv_def
      getNumPayloadGroups_def)

lemma addPayloadGroup_Inr:
  assumes "list_all (\<lambda>p. p \<noteq> None) operations"
  shows "addPayloadGroup operations r =
           Inr (length (payloadGroupLengths r),
                r\<lparr>payloadOperations := payloadOperations r @ [x. Some x \<leftarrow> operations],
                  payloadGroupLengths :=
                    payloadGroupLengths r @ [length [x. Some x \<leftarrow> operations]]\<rparr>)"
  using assms by (simp add: addPayloadGroup_def Let_def)

lemma addPotentiallyEmpty_eq:
  "addPotentiallyEmptyPayloadGroup p r =
     Inr (r\<lparr>payloadOperations := payloadOperations r @ (case p of None \<Rightarrow> [] | Some x \<Rightarrow> [x]),
            payloadGroupLengths :=
              payloadGroupLengths r @ [length (case p of None \<Rightarrow> [] | Some x \<Rightarrow> [x])]\<rparr>)"
  by (cases p) (simp_all add: addPotentiallyEmptyPayloadGroup_def addPayloadGroup_Inr)

lemma carrierInv_empty: "carrierInv emptyMatchCallbackResult"
  by (simp add: carrierInv_def emptyMatchCallbackResult_def)

lemma carrierInv_addPayloadGroup:
  "carrierInv r \<Longrightarrow> addPayloadGroup operations r = Inr (i, r') \<Longrightarrow> carrierInv r'"
  by (auto simp: carrierInv_def addPayloadGroup_def Let_def split: if_splits)

text \<open>
  Claim C9. On a carrier with \<open>k\<close> groups whose lengths account for the operations
  stored, \<open>addPotentiallyEmptyPayloadGroup p\<close> returns a carrier with \<open>k + 1\<close> groups:
  the groups \<open>i < k\<close> are the ones of before, and group \<open>k\<close> is the singleton of the
  operation when \<open>p\<close> is not null and the empty list when it is.
\<close>

theorem addPotentiallyEmptyPayloadGroup_appends_one_group:
  assumes "carrierInv r"
  shows "\<exists>r'. addPotentiallyEmptyPayloadGroup p r = Inr r' \<and> carrierInv r' \<and>
           getNumPayloadGroups r' = getNumPayloadGroups r + 1 \<and>
           (\<forall>i < getNumPayloadGroups r.
              getPayloadGroup r' i = getPayloadGroup r i \<and>
              (\<exists>grp. getPayloadGroup r i = Inr grp)) \<and>
           getPayloadGroup r' (getNumPayloadGroups r) =
             Inr (case p of None \<Rightarrow> [] | Some x \<Rightarrow> [x])"
proof -
  let ?new = "case p of None \<Rightarrow> [] | Some x \<Rightarrow> [x]"
  let ?r' = "r\<lparr>payloadOperations := payloadOperations r @ ?new,
                payloadGroupLengths := payloadGroupLengths r @ [length ?new]\<rparr>"
  have eq: "addPotentiallyEmptyPayloadGroup p r = Inr ?r'"
    by (rule addPotentiallyEmpty_eq)
  have inv': "carrierInv ?r'"
    using assms by (simp add: carrierInv_def)
  have num: "getNumPayloadGroups ?r' = getNumPayloadGroups r + 1"
    by (simp add: getNumPayloadGroups_def)
  have old: "getPayloadGroup ?r' i = getPayloadGroup r i \<and> (\<exists>grp. getPayloadGroup r i = Inr grp)"
    if "i < getNumPayloadGroups r" for i
  proof -
    have i': "i < getNumPayloadGroups ?r'" using that num by simp
    have le: "sum_list (take i (payloadGroupLengths r)) + payloadGroupLengths r ! i
                \<le> length (payloadOperations r)"
      using sum_take_nth_le [of i "payloadGroupLengths r"] that assms
      by (simp add: carrierInv_def getNumPayloadGroups_def)
    have "getPayloadGroup ?r' i = getPayloadGroup r i"
      using that le
      by (simp add: getPayloadGroup_ok [OF inv' i'] getPayloadGroup_ok [OF assms that]
          getNumPayloadGroups_def nth_append)
    then show ?thesis by (simp add: getPayloadGroup_ok [OF assms that])
  qed
  have new: "getPayloadGroup ?r' (getNumPayloadGroups r) = Inr ?new"
  proof -
    have k: "getNumPayloadGroups r < getNumPayloadGroups ?r'" using num by simp
    show ?thesis
      using getPayloadGroup_ok [OF inv' k] assms
      by (simp add: getNumPayloadGroups_def carrierInv_def)
  qed
  show ?thesis using eq inv' num old new by blast
qed

theorem addPotentiallyEmptyPayloadGroup_appends_one_group_witness:
  "carrierInv carrierExample \<and>
   (\<exists>r'. addPotentiallyEmptyPayloadGroup (Some 5) carrierExample = Inr r' \<and>
          getNumPayloadGroups r' = 4 \<and>
          getPayloadGroup r' 0 = Inr [7, 8] \<and>
          getPayloadGroup r' 1 = Inr [] \<and>
          getPayloadGroup r' 2 = Inr [9] \<and>
          getPayloadGroup r' 3 = Inr [5])"
proof -
  have inv: "carrierInv carrierExample"
    by (simp add: carrierInv_def carrierExample_def)
  have g0: "getPayloadGroup carrierExample 0 = Inr [7, 8]"
    and g1: "getPayloadGroup carrierExample 1 = Inr []"
    and g2: "getPayloadGroup carrierExample 2 = Inr [9]"
    and n: "getNumPayloadGroups carrierExample = 3"
    by code_simp+
  from addPotentiallyEmptyPayloadGroup_appends_one_group [OF inv, of "Some 5"]
  obtain r' where r': "addPotentiallyEmptyPayloadGroup (Some 5) carrierExample = Inr r'"
    "getNumPayloadGroups r' = getNumPayloadGroups carrierExample + 1"
    "\<forall>i < getNumPayloadGroups carrierExample. getPayloadGroup r' i = getPayloadGroup carrierExample i
        \<and> (\<exists>grp. getPayloadGroup carrierExample i = Inr grp)"
    "getPayloadGroup r' (getNumPayloadGroups carrierExample) = Inr (case Some 5 of None \<Rightarrow> [] | Some x \<Rightarrow> [x])"
    by blast
  have "getPayloadGroup r' 0 = Inr [7, 8]" "getPayloadGroup r' 1 = Inr []" "getPayloadGroup r' 2 = Inr [9]"
    using r'(3) g0 g1 g2 n by simp_all
  moreover have "getPayloadGroup r' 3 = Inr [5]" using r'(4) n by simp
  moreover have "getNumPayloadGroups r' = 4" using r'(2) n by simp
  ultimately show ?thesis using inv r'(1) by blast
qed


lemma allDimsExceptLoop_nil:
  "allDimsExceptLoop [] kind xs = list_all (\<lambda>it. snd it = kind) xs"
  by (induction xs) auto

lemma list_all_snd_enumerate:
  "list_all (\<lambda>it. snd it = kind) (enumerate n xs) = list_all (\<lambda>t. t = kind) xs"
  by (induction xs arbitrary: n) auto

text \<open>
  Claim C10. \<open>dim(AllDims(), kind)\<close> is \<open>dim(AllDimsExcept({}), kind)\<close>: it adds the
  same closure, and this closure succeeds exactly when every iterator type of the
  candidate is \<open>kind\<close> (so it succeeds on a candidate with no loop).
\<close>

theorem dim_AllDims_IteratorType_is_AllDimsExcept_nil:
  "dim_AllDims_IteratorType m kind h = dim_AllDimsExcept_IteratorType m [] kind h \<and>
   predicates (dim_AllDims_IteratorType m kind h) m =
     predicates h m @ [AllDimsExceptIteratorType [] kind] \<and>
   evalPredicate rec g (AllDimsExceptIteratorType [] kind) h' op =
     Inr (list_all (\<lambda>t. t = kind) (getIteratorTypesArray g op), h')"
  by (simp add: dim_AllDims_IteratorType_def dim_AllDimsExcept_IteratorType_def
      addPredicate_def allDimsExceptLoop_nil list_all_snd_enumerate pure_def)

subsection \<open>Dimension predicates below the range\<close>

lemma index_negative: "i < 0 \<Longrightarrow> index xs i = Inl OutOfBounds"
  by (simp add: index_def)

text \<open>
  Claim C3 (what the code does). When a negative dimension resolves below zero
  (\<open>rank + d < 0\<close>), the closures of \<open>dim(d, DivisibleBy(k))\<close> and
  \<open>dim(d, CaptureStaticValue)\<close> only compare the resolved index with the rank from above
  and read \<open>getStaticLoopRanges()\<close> out of range; the closures of \<open>dim(d, ShapeKind)\<close>
  and \<open>dim(d, IteratorType)\<close> check the lower bound and return false.
\<close>

theorem dim_below_range:
  assumes "dimension < 0" and "int (getNumLoops g op) + dimension < 0"
    and "length (getStaticLoopRanges g op) = getNumLoops g op"
  shows "evalPredicate rec g (DimDivisibleBy dimension k) h op = Inl OutOfBounds \<and>
         evalPredicate rec g (DimCaptureStaticValue dimension c) h op = Inl OutOfBounds \<and>
         evalPredicate rec g (DimsShapeKind [dimension] kind) h op = Inr (False, h) \<and>
         evalPredicate rec g (DimsIteratorType [dimension] it) h op = Inr (False, h)"
proof -
  have r: "resolve dimension (getNumLoops g op) < 0"
    using assms by (simp add: resolve_def)
  have 1: "evalPredicate rec g (DimDivisibleBy dimension k) h op = Inl OutOfBounds"
    using r by (simp add: Let_def index_negative)
  have 2: "evalPredicate rec g (DimCaptureStaticValue dimension c) h op = Inl OutOfBounds"
    using r by (simp add: Let_def index_negative)
  have 3: "evalPredicate rec g (DimsIteratorType [dimension] it) h op = Inr (False, h)"
    using r by (simp add: Let_def pure_def getNumLoops_def)
  have 4: "evalPredicate rec g (DimsShapeKind [dimension] kind) h op = Inr (False, h)"
    using r assms(3) by (simp add: Let_def pure_def)
  show ?thesis using 1 2 3 4 by simp
qed

theorem dim_below_range_witness:
  "(-3 :: int) < 0 \<and> int (getNumLoops irRank2 1) + (-3) < 0 \<and>
   length (getStaticLoopRanges irRank2 1) = getNumLoops irRank2 1 \<and>
   evalPredicate (match 0 irRank2) irRank2 (DimDivisibleBy (-3) 2) emptyHeap 1 = Inl OutOfBounds \<and>
   evalPredicate (match 0 irRank2) irRank2 (DimCaptureStaticValue (-3) 0) emptyHeap 1 = Inl OutOfBounds \<and>
   evalPredicate (match 0 irRank2) irRank2 (DimsIteratorType [-3] parallel) emptyHeap 1 = Inr (False, emptyHeap)"
proof -
  have a: "(-3 :: int) < 0" by simp
  have b: "int (getNumLoops irRank2 1) + (-3) < 0"
    by (simp add: getNumLoops_def irRank2_def emptyIR_def)
  have c: "length (getStaticLoopRanges irRank2 1) = getNumLoops irRank2 1"
    by (simp add: getNumLoops_def irRank2_def emptyIR_def)
  show ?thesis using a b c dim_below_range [OF a b c] by simp
qed

subsection \<open>Subset matching of an output operand\<close>

lemma match_no_predicates:
  "isLinalgOp g op \<Longrightarrow> predicates h m = [] \<Longrightarrow>
   match (Suc n) g h m op = Inr (True, h\<lparr>captured := (captured h)(m := Some op)\<rparr>)"
  by simp

text \<open>
  Claim C2 (what the code does). The closure of \<open>output(p, SubsetOf(m))\<close> resolves and
  checks \<open>p\<close> against the number of inputs. On an operation with no input and one init
  produced by a matching operation, \<open>output(0, SubsetOf(m))\<close> fails without running
  \<open>m\<close>; on an operation with two inputs and one init, \<open>output(-1, SubsetOf(m))\<close> reads
  init operand 1, which does not exist. \<open>output(p, m)\<close> without \<open>SubsetOf\<close> matches
  in both cases.
\<close>

theorem output_SubsetOf_uses_input_arity:
  "evalPredicate (match 1 irOutputs) irOutputs (OutputSubsetOf 0 1) emptyHeap 10 = Inr (False, emptyHeap) \<and>
   evalPredicate (match 1 irOutputs) irOutputs (OutputMatcher 0 1 False) emptyHeap 10 =
     Inr (True, emptyHeap\<lparr>captured := (captured emptyHeap)(1 := Some 11)\<rparr>) \<and>
   evalPredicate (match 1 irOutputs) irOutputs (OutputSubsetOf (-1) 1) emptyHeap 12 = Inl OutOfBounds \<and>
   evalPredicate (match 1 irOutputs) irOutputs (OutputMatcher (-1) 1 False) emptyHeap 12 =
     Inr (True, emptyHeap\<lparr>captured := (captured emptyHeap)(1 := Some 11)\<rparr>)"
  by (simp add: irOutputs_def emptyIR_def emptyHeap_def getNumDpsInputs_def getNumDpsInits_def
      resolve_def index_def pure_def getDefiningOp_def orOptional_def)

subsection \<open>Subset traversal\<close>

text \<open>
  Claim C8 (what the code does). Backwards from the output block argument of the
  loop, the traversal follows the tie and returns the producer 1. Forwards from the
  result of 1, whose only use is the tied operand of the loop, the traversal looks for
  an output block argument whose tied operand is \<^emph>\<open>not\<close> this use, finds none and
  returns the loop itself, not the consumer 3 of the tied block argument.
\<close>

theorem forward_traversal_stops_at_foreach_thread:
  "traverseSubsetsBackwards irTie (BlockArgument (Some 2) 1) = Some (Inr 1) \<and>
   getUses irTie (OpResult 1 0) = [(2, 1)] \<and>
   opKind irTie 2 = ForeachThreadOp \<and>
   getOutputBlockArguments irTie 2 = [BlockArgument (Some 2) 1] \<and>
   getUses irTie (BlockArgument (Some 2) 1) = [(3, 0)] \<and>
   opKind irTie 3 = OtherOp \<and>
   traverseSubsetsForwardAnyUse irTie (OpResult 1 0) = Some 2"
  by (simp add: traverseSubsetsForwardAnyUse.simps traverseSubsetsBackwards.simps
      irTie_def emptyIR_def getOutputBlockArguments_def getTiedOpOperand_def operandGet_def
      index_def)

subsection \<open>The exhaustiveness predicate\<close>

lemma insertPtr_set: "set (insertPtr x s) = insert x (set s)"
  by (auto simp: insertPtr_def)

lemma insertPtr_distinct: "distinct s \<Longrightarrow> distinct (insertPtr x s)"
  by (simp add: insertPtr_def)

lemma insertCaptured_set:
  "set (insertCaptured h ms acc) = set acc \<union> {c. \<exists>r \<in> set ms. captured h r = Some c}"
  by (induction ms arbitrary: acc)
     (auto simp: getCaptured_def insertPtr_set split: option.splits)

lemma insertCaptured_distinct: "distinct acc \<Longrightarrow> distinct (insertCaptured h ms acc)"
  by (induction ms arbitrary: acc) (auto simp: insertPtr_distinct split: option.splits)

lemma matched_size:
  "length (insertPtr op (insertCaptured h ms [])) =
     card (insert op {c. \<exists>r \<in> set ms. captured h r = Some c})"
proof -
  have "distinct (insertPtr op (insertCaptured h ms []))"
    by (simp add: insertPtr_distinct insertCaptured_distinct)
  then have "length (insertPtr op (insertCaptured h ms [])) =
               card (set (insertPtr op (insertCaptured h ms [])))"
    by (simp add: distinct_card)
  then show ?thesis by (simp add: insertPtr_set insertCaptured_set)
qed

text \<open>
  Claim C4. The closure added by \<open>allTilableOpsCaptured\<close> on a matcher \<open>m\<close> holds a copy
  of the list of nested matchers of \<open>m\<close> itself, as that list is when the closure is
  added. On a candidate it succeeds exactly when the candidate has a parent of the scope
  type and the set made of the candidate and of the non-null captures (read when the
  closure runs) of the matchers of that copy has as many elements as the walk of the
  parent finds operations with the tiling interface; with no parent it fails.
  The list of \<open>m\<close> grows only when a nested matcher is passed to a method of \<open>m\<close>:
  each of \<open>input\<close>, \<open>output\<close>, \<open>result\<close> and their \<open>SubsetOf\<close> forms appends the nested
  matcher (here another matcher than \<open>m\<close>) followed by the list the nested matcher has at
  that moment. A matcher passed later to the nested matcher does not reach the list of
  \<open>m\<close>, and a matcher passed to \<open>m\<close> after the closure was added does not reach the copy.
\<close>

theorem allTilableOpsCaptured_counts_own_list:
  assumes "nested \<noteq> m"
  shows "nestedCapturingMatchers (input_matcher m position nested optional h0) m =
           nestedCapturingMatchers h0 m @ nested # nestedCapturingMatchers h0 nested \<and>
         nestedCapturingMatchers (input_SubsetOf m position nested h0) m =
           nestedCapturingMatchers h0 m @ nested # nestedCapturingMatchers h0 nested \<and>
         nestedCapturingMatchers (output_matcher m position nested optional h0) m =
           nestedCapturingMatchers h0 m @ nested # nestedCapturingMatchers h0 nested \<and>
         nestedCapturingMatchers (output_SubsetOf m position nested h0) m =
           nestedCapturingMatchers h0 m @ nested # nestedCapturingMatchers h0 nested \<and>
         nestedCapturingMatchers (result_HasAnyUse m position nested optional h0) m =
           nestedCapturingMatchers h0 m @ nested # nestedCapturingMatchers h0 nested \<and>
         nestedCapturingMatchers (result_HasAnyUse_SubsetOf m position nested optional h0) m =
           nestedCapturingMatchers h0 m @ nested # nestedCapturingMatchers h0 nested \<and>
         nestedCapturingMatchers (input_matcher nested position later optional h0) m =
           nestedCapturingMatchers h0 m \<and>
         predicates (allTilableOpsCaptured m scope h0) m =
           predicates h0 m @ [AllTilableOpsCaptured scope (nestedCapturingMatchers h0 m)] \<and>
         predicates (input_matcher m position later optional (allTilableOpsCaptured m scope h0)) m =
           predicates h0 m @ [AllTilableOpsCaptured scope (nestedCapturingMatchers h0 m),
                              InputMatcher position later optional] \<and>
         evalPredicate rec g (last (predicates (allTilableOpsCaptured m scope h0) m)) h op =
           Inr ((\<exists>parent. getParentOfType g op scope = Some parent \<and>
                   card (insert op {c. \<exists>x \<in> set (nestedCapturingMatchers h0 m).
                                         captured h x = Some c}) =
                     length (walkTilingInterface g parent)), h)"
proof -
  have "checkAllTilableMatched g h (getParentOfType g op scope) op copy =
          (\<exists>parent. getParentOfType g op scope = Some parent \<and>
             card (insert op {c. \<exists>x \<in> set copy. captured h x = Some c}) =
               length (walkTilingInterface g parent))" for copy
    by (cases "getParentOfType g op scope")
       (auto simp: checkAllTilableMatched_def Let_def matched_size)
  then show ?thesis
    using assms
    by (simp add: allTilableOpsCaptured_def input_matcher_def input_SubsetOf_def
        output_matcher_def output_SubsetOf_def result_HasAnyUse_def
        result_HasAnyUse_SubsetOf_def recordNestedMatcher_def
        addPredicate_def Let_def pure_def)
qed

text \<open>
  On the matchers built from the inside out, the list of the matcher 0 is \<open>[1, 2]\<close>
  when the closure is added; the match of the matcher 0 on operation 10 captures 12, 11
  and 10, the three operations of the function, and succeeds.
\<close>

theorem allTilableOpsCaptured_counts_own_list_witness:
  "(1 :: matcher_ref) \<noteq> 0 \<and>
   nestedCapturingMatchers (input_matcher 1 0 2 False emptyHeap) 1 = [2] \<and>
   nestedCapturingMatchers (input_matcher 0 0 1 False (input_matcher 1 0 2 False emptyHeap)) 0 =
     [1, 2] \<and>
   predicates heapBottomUp 0 = [InputMatcher 0 1 False, AllTilableOpsCaptured FuncOp [1, 2]] \<and>
   match 3 irThree heapBottomUp 0 10 = Inr (True, heapBottomUpAfter) \<and>
   getParentOfType irThree 10 FuncOp = Some 20 \<and>
   length (walkTilingInterface irThree 20) = 3 \<and>
   evalPredicate (match 0 irThree) irThree (last (predicates heapBottomUp 0))
       heapBottomUpAfter 10 =
     Inr (True, heapBottomUpAfter)"
proof -
  let ?h1 = "input_matcher 1 0 2 False emptyHeap"
  let ?h0 = "input_matcher 0 0 1 False ?h1"
  have n: "(1 :: matcher_ref) \<noteq> 0" by simp
  have inner: "nestedCapturingMatchers ?h1 1 = [2]" "nestedCapturingMatchers ?h1 0 = []"
    by (simp_all add: builder_defs)
  have run: "match 3 irThree heapBottomUp 0 10 = Inr (True, heapBottomUpAfter)"
    by (simp add: numeral_3_eq_3 irThree_def heapBottomUp_def heapBottomUpAfter_def
        builder_defs run_defs fun_eq_iff)
  have ir: "getParentOfType irThree 10 FuncOp = Some 20"
    "length (walkTilingInterface irThree 20) = 3"
    by (simp_all add: irThree_def emptyIR_def)
  have caps: "{c. \<exists>x \<in> set [1, 2 :: matcher_ref]. captured heapBottomUpAfter x = Some c} =
                {11, 12}"
    by (auto simp: heapBottomUpAfter_def)
  note list = allTilableOpsCaptured_counts_own_list
    [OF n, where position = 0 and optional = False and ?h0.0 = ?h1, THEN conjunct1]
  have list0: "nestedCapturingMatchers ?h0 0 = [1, 2]"
    using list inner by simp
  note attach = allTilableOpsCaptured_counts_own_list
    [OF n, where ?h0.0 = ?h0 and scope = FuncOp and rec = "match 0 irThree" and g = irThree
       and h = heapBottomUpAfter and op = 10]
  note added = attach [THEN conjunct2, THEN conjunct2, THEN conjunct2, THEN conjunct2, THEN conjunct2, THEN conjunct2, THEN conjunct2, THEN conjunct1]
  note runs = attach [THEN conjunct2, THEN conjunct2, THEN conjunct2, THEN conjunct2, THEN conjunct2, THEN conjunct2, THEN conjunct2, THEN conjunct2, THEN conjunct2]
  have p0: "predicates ?h0 0 = [InputMatcher 0 1 False]"
    by (simp add: builder_defs)
  have preds: "predicates heapBottomUp 0 =
                 [InputMatcher 0 1 False, AllTilableOpsCaptured FuncOp [1, 2]]"
    unfolding heapBottomUp_def using added list0 p0 by simp
  have verdict: "evalPredicate (match 0 irThree) irThree (last (predicates heapBottomUp 0))
                     heapBottomUpAfter 10 =
                   Inr (True, heapBottomUpAfter)"
    unfolding heapBottomUp_def using runs [unfolded list0 caps] ir by simp
  show ?thesis using n inner(1) list0 preds run ir verdict by simp
qed

text \<open>
  Claim C4 as stated fails on the matchers built from the outside in. The matchers 1
  and 2 are both recorded as nested matchers before the closure is added (1 in the list
  of 0, then 2 in the list of 1), the match of the matcher 0 on operation 10 makes them
  capture 11 and 12, and the candidate with these two captures are the three operations
  of the function. The closure holds the list \<open>[1]\<close>, counts two operations and fails.
\<close>

theorem allTilableOpsCaptured_misses_matcher_nested_later:
  "predicates heapTopDown 0 = [InputMatcher 0 1 False, AllTilableOpsCaptured FuncOp [1]] \<and>
   predicates heapTopDown 1 = [InputMatcher 0 2 False] \<and>
   nestedCapturingMatchers heapTopDown 0 = [1] \<and>
   nestedCapturingMatchers heapTopDown 1 = [2] \<and>
   getParentOfType irThree 10 FuncOp = Some 20 \<and>
   walkTilingInterface irThree 20 = [12, 11, 10] \<and>
   match 3 irThree heapTopDown 0 10 = Inr (False, heapTopDownAfter) \<and>
   getCaptured heapTopDownAfter 1 = Some 11 \<and>
   getCaptured heapTopDownAfter 2 = Some 12 \<and>
   card {10, 11, 12 :: op_ref} = length (walkTilingInterface irThree 20) \<and>
   evalPredicate (match 0 irThree) irThree (AllTilableOpsCaptured FuncOp [1])
       heapTopDownAfter 10 =
     Inr (False, heapTopDownAfter)"
  by (simp add: numeral_3_eq_3 irThree_def heapTopDown_def heapTopDownAfter_def
      builder_defs run_defs fun_eq_iff)

subsection \<open>Matching the producer of an input\<close>

lemma match_True_captured:
  "match n g h m op = Inr (True, h') \<Longrightarrow> captured h' m = Some op"
  by (cases n) (auto split: if_splits sum.splits prod.splits)

text \<open>
  Claim C5. The closure of \<open>input(position, matcher, optional)\<close>, on a candidate where
  the resolved position is in bounds: when the operand is not the result of an
  operation, it returns \<open>optional\<close> and leaves the heap as it is; when it is, it runs
  the nested matcher on the defining operation, returns the disjunction of the nested
  verdict and \<open>optional\<close>, and leaves the heap as the nested match left it.
\<close>

theorem input_matcher_optional:
  assumes "0 \<le> resolve position (getNumDpsInputs g op)"
    and "resolve position (getNumDpsInputs g op) < int (getNumDpsInputs g op)"
  shows "last (predicates (input_matcher m position operandMatcher optional h0) m) =
           InputMatcher position operandMatcher optional \<and>
         evalPredicate (match n g) g (InputMatcher position operandMatcher optional) h op =
           (case getDefiningOp
                   (fst (getDpsInputOperands g op ! nat (resolve position (getNumDpsInputs g op)))) of
              None \<Rightarrow> Inr (optional, h)
            | Some definingOp \<Rightarrow>
                (case match n g h operandMatcher definingOp of
                   Inl e \<Rightarrow> Inl e
                 | Inr (b, h') \<Rightarrow> Inr (b \<or> optional, h')))"
  using assms
  by (simp add: input_matcher_def recordNestedMatcher_def addPredicate_def Let_def index_def
      getNumDpsInputs_def pure_def orOptional_def split: option.splits)


theorem input_matcher_optional_witness:
  "0 \<le> resolve 0 (getNumDpsInputs irInputs 10) \<and>
   resolve 0 (getNumDpsInputs irInputs 10) < int (getNumDpsInputs irInputs 10) \<and>
   0 \<le> resolve (-1) (getNumDpsInputs irInputs 10) \<and>
   resolve (-1) (getNumDpsInputs irInputs 10) < int (getNumDpsInputs irInputs 10) \<and>
   evalPredicate (match 1 irInputs) irInputs (InputMatcher 0 1 True) heapInputs 10 =
     Inr (True, heapInputs\<lparr>cells := (cells heapInputs)(0 := 2)\<rparr>) \<and>
   evalPredicate (match 1 irInputs) irInputs (InputMatcher 0 1 False) heapInputs 10 =
     Inr (False, heapInputs\<lparr>cells := (cells heapInputs)(0 := 2)\<rparr>) \<and>
   evalPredicate (match 1 irInputs) irInputs (InputMatcher (-1) 1 True) heapInputs 10 =
     Inr (True, heapInputs) \<and>
   evalPredicate (match 1 irInputs) irInputs (InputMatcher (-1) 1 False) heapInputs 10 =
     Inr (False, heapInputs)"
proof -
  have n: "getNumDpsInputs irInputs 10 = 2"
    by (simp add: getNumDpsInputs_def irInputs_def emptyIR_def)
  have a: "0 \<le> resolve 0 (getNumDpsInputs irInputs 10)"
    and b: "resolve 0 (getNumDpsInputs irInputs 10) < int (getNumDpsInputs irInputs 10)"
    and c: "0 \<le> resolve (-1) (getNumDpsInputs irInputs 10)"
    and d: "resolve (-1) (getNumDpsInputs irInputs 10) < int (getNumDpsInputs irInputs 10)"
    by (simp_all add: n resolve_def)
  have r0: "nat (resolve 0 (getNumDpsInputs irInputs 10)) = 0"
    and r1: "nat (resolve (-1) (getNumDpsInputs irInputs 10)) = 1"
    by (simp_all add: n resolve_def)
  have m: "match 1 irInputs heapInputs 1 11 =
             Inr (False, heapInputs\<lparr>cells := (cells heapInputs)(0 := 2)\<rparr>)"
    by (simp add: irInputs_def heapInputs_def builder_defs run_defs)
  have d0: "getDefiningOp (fst (getDpsInputOperands irInputs 10 ! 0)) = Some 11"
    and d1: "getDefiningOp (fst (getDpsInputOperands irInputs 10 ! 1)) = None"
    by (simp_all add: irInputs_def emptyIR_def getDefiningOp_def)
  note t1 = input_matcher_optional [OF a b, of 0 1 True emptyHeap 1 heapInputs, THEN conjunct2]
  note t2 = input_matcher_optional [OF a b, of 0 1 False emptyHeap 1 heapInputs, THEN conjunct2]
  note t3 = input_matcher_optional [OF c d, of 0 1 True emptyHeap 1 heapInputs, THEN conjunct2]
  note t4 = input_matcher_optional [OF c d, of 0 1 False emptyHeap 1 heapInputs, THEN conjunct2]
  have e1: "evalPredicate (match 1 irInputs) irInputs (InputMatcher 0 1 True) heapInputs 10 =
              Inr (True, heapInputs\<lparr>cells := (cells heapInputs)(0 := 2)\<rparr>)"
    by (simp only: t1 r0 d0 m option.case sum.case prod.case simp_thms)
  have e2: "evalPredicate (match 1 irInputs) irInputs (InputMatcher 0 1 False) heapInputs 10 =
              Inr (False, heapInputs\<lparr>cells := (cells heapInputs)(0 := 2)\<rparr>)"
    by (simp only: t2 r0 d0 m option.case sum.case prod.case simp_thms)
  have e3: "evalPredicate (match 1 irInputs) irInputs (InputMatcher (-1) 1 True) heapInputs 10 =
              Inr (True, heapInputs)"
    by (simp only: t3 r1 d1 option.case)
  have e4: "evalPredicate (match 1 irInputs) irInputs (InputMatcher (-1) 1 False) heapInputs 10 =
              Inr (False, heapInputs)"
    by (simp only: t4 r1 d1 option.case)
  show ?thesis
    using a b c d e1 e2 e3 e4 by blast
qed

subsection \<open>Closures as steps\<close>

lemma orOptional_False [simp]: "orOptional False r = r"
  by (auto simp: orOptional_def split: sum.splits)

lemma evalPredicate_plan:
  "evalPredicate rec g p h op = runPlan rec g (planOf g p op) h op"
  by (cases p)
     (simp_all add: Let_def pure_def operandPlan_def subsetPlan_def
        split: sum.splits option.splits)

lemma planCalls_planOf: "m \<in> set (planCalls (planOf g p op)) \<Longrightarrow> m \<in> set (predicateCalls p)"
  by (cases p)
     (auto simp: Let_def operandPlan_def subsetPlan_def split: sum.splits option.splits if_splits)

subsection \<open>A failed match and the capture of the matcher\<close>

lemma keeps_refl: "keeps K h h"
  by (simp add: keeps_def)

lemma keeps_trans: "keeps K h h1 \<Longrightarrow> keeps K h1 h2 \<Longrightarrow> keeps K h h2"
  by (simp add: keeps_def)

lemma keeps_predicates: "keeps K h h' \<Longrightarrow> predicates h' = predicates h"
  by (simp add: keeps_def)

lemma orOptional_Inr: "orOptional optional x = Inr (b, h') \<Longrightarrow> \<exists>b0. x = Inr (b0, h')"
  by (auto simp: orOptional_def split: sum.splits)

lemma keeps_anyOfUsers:
  assumes rec: "\<And>h u b h'. predicates h = P \<Longrightarrow> rec h m u = Inr (b, h') \<Longrightarrow> keeps K h h'"
  shows "predicates h = P \<Longrightarrow> anyOfUsers rec m us h = Inr (b, h') \<Longrightarrow> keeps K h h'"
proof (induction us arbitrary: h)
  case Nil
  then show ?case by (simp add: keeps_refl)
next
  case (Cons u us)
  from Cons.prems(2) obtain b1 h1 where r1: "rec h m u = Inr (b1, h1)"
    by (auto split: sum.splits)
  have k1: "keeps K h h1" using rec [OF Cons.prems(1) r1] .
  show ?case
  proof (cases b1)
    case True
    then show ?thesis using Cons.prems(2) r1 k1 by simp
  next
    case False
    then have "anyOfUsers rec m us h1 = Inr (b, h')" using Cons.prems(2) r1 by simp
    moreover have "predicates h1 = P" using k1 Cons.prems(1) by (simp add: keeps_def)
    ultimately have "keeps K h1 h'" by (rule Cons.IH [rotated])
    then show ?thesis using k1 keeps_trans by blast
  qed
qed

lemma keeps_runPlan:
  assumes rec: "\<And>m h u b h'. m \<in> set (planCalls pl) \<Longrightarrow> predicates h = P \<Longrightarrow>
                  rec h m u = Inr (b, h') \<Longrightarrow> keeps K h h'"
    and P: "predicates h = P"
    and run: "runPlan rec g pl h op = Inr (b, h')"
  shows "keeps K h h'"
proof (cases pl)
  case (Nested m d optional)
  then obtain b0 where "rec h m d = Inr (b0, h')"
    using run orOptional_Inr by fastforce
  then show ?thesis using rec [of m h d b0 h'] P Nested by simp
next
  case (AnyUser m us optional)
  then obtain b0 where "anyOfUsers rec m us h = Inr (b0, h')"
    using run orOptional_Inr by fastforce
  then show ?thesis
    using keeps_anyOfUsers [of P rec m K h us b0 h'] rec P AnyUser by simp
qed (use run in \<open>auto simp: pure_def keeps_def\<close>)

lemma keeps_allOf:
  assumes fn: "\<And>p h b h'. p \<in> set ps \<Longrightarrow> predicates h = P \<Longrightarrow> fn p h = Inr (b, h') \<Longrightarrow>
                 keeps K h h'"
  shows "predicates h = P \<Longrightarrow> allOf fn ps h = Inr (b, h') \<Longrightarrow> keeps K h h'"
  using fn
proof (induction ps arbitrary: h)
  case Nil
  then show ?case by (simp add: keeps_refl)
next
  case (Cons p ps)
  from Cons.prems(2) obtain b1 h1 where r1: "fn p h = Inr (b1, h1)"
    by (auto split: sum.splits)
  have k1: "keeps K h h1" using Cons.prems(3) [of p h b1 h1] Cons.prems(1) r1 by simp
  show ?case
  proof (cases b1)
    case False
    then show ?thesis using Cons.prems(2) r1 k1 by simp
  next
    case True
    have h1: "allOf fn ps h1 = Inr (b, h')" using True Cons.prems(2) r1 by simp
    have p1: "predicates h1 = P" using k1 Cons.prems(1) by (simp add: keeps_def)
    have "keeps K h1 h'"
    proof (rule Cons.IH [OF p1 h1])
      fix p' k c k'
      assume "p' \<in> set ps" "predicates k = P" "fn p' k = Inr (c, k')"
      then show "keeps K k k'" using Cons.prems(3) [of p' k c k'] by simp
    qed
    then show ?thesis using k1 keeps_trans by blast
  qed
qed

lemma keeps_match:
  assumes closed: "\<And>r p. r \<in> R \<Longrightarrow> p \<in> set (P r) \<Longrightarrow> set (predicateCalls p) \<subseteq> R"
    and K: "K \<inter> R = {}"
  shows "r \<in> R \<Longrightarrow> predicates h = P \<Longrightarrow> match n g h r op = Inr (b, h') \<Longrightarrow> keeps K h h'"
proof (induction n arbitrary: r h op b h')
  case 0
  then show ?case by simp
next
  case (Suc n)
  show ?case
  proof (cases "isLinalgOp g op")
    case False
    then show ?thesis using Suc.prems(3) by (simp add: keeps_refl)
  next
    case True
    let ?fn = "\<lambda>p h'. evalPredicate (match n g) g p h' op"
    from Suc.prems(3) True obtain b0 h0 where
      all: "allOf ?fn (predicates h r) h = Inr (b0, h0)"
      by (auto split: sum.splits)
    have step: "keeps K k k'"
      if "p \<in> set (P r)" "predicates k = P" "?fn p k = Inr (c, k')" for p k c k'
    proof -
      have "runPlan (match n g) g (planOf g p op) k op = Inr (c, k')"
        using that(3) by (simp add: evalPredicate_plan)
      moreover have "keeps K k1 k2"
        if "m \<in> set (planCalls (planOf g p op))" "predicates k1 = P"
           "match n g k1 m u = Inr (c1, k2)" for m k1 u c1 k2
      proof -
        have "m \<in> R" using that(1) planCalls_planOf closed [OF Suc.prems(1) \<open>p \<in> set (P r)\<close>]
          by blast
        then show ?thesis using Suc.IH that(2,3) by blast
      qed
      ultimately show ?thesis using keeps_runPlan [of "planOf g p op" P "match n g" K k g op c k'] that(2)
        by blast
    qed
    have k0: "keeps K h h0"
      using keeps_allOf [of "P r" P ?fn K h b0 h0] step all Suc.prems(2) by blast
    have "r \<notin> K" using Suc.prems(1) K by blast
    then have "keeps K h0 h'"
      using Suc.prems(3) True all Suc.prems(2) by (auto simp: keeps_def split: if_splits)
    then show ?thesis using k0 keeps_trans by blast
  qed
qed

text \<open>
  Claim C6, amended. Let \<open>rs\<close> be a set of matchers closed under calls that holds
  every matcher the closures of \<open>m\<close> call and does not hold \<open>m\<close>: \<open>m\<close> is not called,
  directly or through nested matchers, while it matches. Then a call of \<open>match\<close> on \<open>m\<close>
  that returns false leaves the capture of \<open>m\<close> as it was, and one that returns true
  sets it to the candidate.
\<close>

theorem match_failure_keeps_capture:
  assumes "closedUnderCalls h rs"
    and "list_all (callsWithin rs) (predicates h m)"
    and "m \<notin> set rs"
    and "match n g h m op = Inr (b, h')"
  shows "getCaptured h' m = (if b then Some op else getCaptured h m)"
proof (cases b)
  case True
  then show ?thesis using assms(4) match_True_captured by (simp add: getCaptured_def)
next
  case False
  have closed: "set (predicateCalls p) \<subseteq> set rs" if "r \<in> set rs" "p \<in> set (predicates h r)" for r p
    using assms(1) that by (auto simp: closedUnderCalls_def callsWithin_def list_all_iff)
  obtain n' where n: "n = Suc n'" using assms(4) by (cases n) auto
  show ?thesis
  proof (cases "isLinalgOp g op")
    case nl: False
    then have "h' = h" using assms(4) n by simp
    then show ?thesis using False by simp
  next
    case True
    let ?fn = "\<lambda>p h'. evalPredicate (match n' g) g p h' op"
    have res: "allOf ?fn (predicates h m) h = Inr (False, h')"
      using assms(4) False n True by (auto split: if_splits sum.splits)
    have step: "keeps {m} k k'"
      if "p \<in> set (predicates h m)" "predicates k = predicates h" "?fn p k = Inr (c, k')"
      for p k c k'
    proof -
      have run: "runPlan (match n' g) g (planOf g p op) k op = Inr (c, k')"
        using that(3) by (simp add: evalPredicate_plan)
      have calls: "set (predicateCalls p) \<subseteq> set rs"
        using assms(2) that(1) by (auto simp: callsWithin_def list_all_iff)
      have "keeps {m} k1 k2"
        if "m' \<in> set (planCalls (planOf g p op))" "predicates k1 = predicates h"
           "match n' g k1 m' u = Inr (c1, k2)" for m' k1 u c1 k2
      proof -
        have "m' \<in> set rs" using that(1) planCalls_planOf calls by blast
        then show ?thesis
          using keeps_match [of "set rs" "predicates h" "{m}" m' k1 n' g u c1 k2]
            closed assms(3) that(2,3) by blast
      qed
      then show ?thesis
        using keeps_runPlan [of "planOf g p op" "predicates h" "match n' g" "{m}" k g op c k']
          that(2) run by blast
    qed
    have "keeps {m} h h'"
      using keeps_allOf [of "predicates h m" "predicates h" ?fn "{m}" h False h'] step res by blast
    then show ?thesis using False by (simp add: keeps_def getCaptured_def)
  qed
qed

theorem match_failure_keeps_capture_witness:
  "closedUnderCalls heapNested [1] \<and>
   list_all (callsWithin [1]) (predicates heapNested 0) \<and>
   0 \<notin> set [1 :: nat] \<and>
   match 2 irInputs heapNested 0 10 =
     Inr (False, heapNested\<lparr>captured := (captured heapNested)(1 := Some 11)\<rparr>) \<and>
   getCaptured (heapNested\<lparr>captured := (captured heapNested)(1 := Some 11)\<rparr>) 0 =
     getCaptured heapNested 0"
proof -
  have a: "closedUnderCalls heapNested [1]"
    by (simp add: closedUnderCalls_def heapNested_def builder_defs)
  have b: "list_all (callsWithin [1]) (predicates heapNested 0)"
    by (simp add: callsWithin_def heapNested_def builder_defs)
  have c: "0 \<notin> set [1 :: nat]" by simp
  have d: "match 2 irInputs heapNested 0 10 =
             Inr (False, heapNested\<lparr>captured := (captured heapNested)(1 := Some 11)\<rparr>)"
    by (simp add: numeral_2_eq_2 irInputs_def heapNested_def builder_defs run_defs)
  show ?thesis
    using a b c d match_failure_keeps_capture [OF a b c d] by simp
qed

text \<open>
  Claim C6 as stated fails for matchers that refer to each other: matching the matcher
  at 1 on operation 10 runs the matcher at 0 on 11, which runs the matcher at 1 on 12,
  where it succeeds and captures 12; back on 10 the rank predicate fails. The call
  returns false and the capture of the matcher at 1 went from null to 12.
\<close>

theorem match_failure_changes_capture_of_cyclic_matcher:
  "match 3 irChain heapCyclic 1 10 =
     Inr (False, heapCyclic\<lparr>captured := (captured heapCyclic)(1 := Some 12, 0 := Some 11)\<rparr>) \<and>
   getCaptured heapCyclic 1 = None \<and>
   getCaptured (heapCyclic\<lparr>captured := (captured heapCyclic)(1 := Some 12, 0 := Some 11)\<rparr>) 1
     = Some 12"
  by (simp add: numeral_3_eq_3 irChain_def heapCyclic_def builder_defs run_defs)

subsection \<open>Resetting the captures\<close>

lemma reaches_unfold: "reaches N m x \<longleftrightarrow> x = m \<or> (\<exists>r \<in> set (N m). reaches N r x)"
  by (auto intro: reaches.intros elim: reaches.cases)

lemma clearedOn_trans:
  "clearedOn S h h1 \<Longrightarrow> clearedOn T h1 h2 \<Longrightarrow> clearedOn (S \<union> T) h h2"
  by (auto simp: clearedOn_def)

lemma clearedOn_empty: "clearedOn {} h h"
  by (simp add: clearedOn_def)

lemma forEachNested_cleared:
  assumes f: "\<And>r h. r \<in> set ms \<Longrightarrow> nestedCapturingMatchers h = N \<Longrightarrow>
                \<exists>h'. f r h = Some h' \<and> clearedOn {x. reaches N r x} h h'"
  shows "nestedCapturingMatchers h = N \<Longrightarrow>
         \<exists>h'. forEachNested f ms h = Some h' \<and>
              clearedOn {x. \<exists>r \<in> set ms. reaches N r x} h h'"
  using f
proof (induction ms arbitrary: h)
  case Nil
  then show ?case by (simp add: clearedOn_empty)
next
  case (Cons r ms)
  obtain h1 where h1: "f r h = Some h1" and c1: "clearedOn {x. reaches N r x} h h1"
    using Cons.prems(2) [of r h] Cons.prems(1) by auto
  have n1: "nestedCapturingMatchers h1 = N"
    using c1 Cons.prems(1) by (simp add: clearedOn_def)
  have "\<exists>h'. forEachNested f ms h1 = Some h' \<and>
             clearedOn {x. \<exists>r \<in> set ms. reaches N r x} h1 h'"
  proof (rule Cons.IH [OF n1])
    fix r' and k :: heap
    assume "r' \<in> set ms" "nestedCapturingMatchers k = N"
    then show "\<exists>h'. f r' k = Some h' \<and> clearedOn {x. reaches N r' x} k h'"
      using Cons.prems(2) [of r' k] by simp
  qed
  then obtain h' where h': "forEachNested f ms h1 = Some h'"
    and c2: "clearedOn {x. \<exists>r \<in> set ms. reaches N r x} h1 h'"
    by blast
  have "{x. reaches N r x} \<union> {x. \<exists>r \<in> set ms. reaches N r x} =
          {x. \<exists>r' \<in> set (r # ms). reaches N r' x}"
    by auto
  then have "clearedOn {x. \<exists>r' \<in> set (r # ms). reaches N r' x} h h'"
    using clearedOn_trans [OF c1 c2] by simp
  then show ?case using h1 h' by simp
qed

lemma resetCapture_cleared:
  "nestingBelow n N m \<Longrightarrow> nestedCapturingMatchers h = N \<Longrightarrow>
   \<exists>h'. resetCapture n m h = Some h' \<and> clearedOn {x. reaches N m x} h h'"
proof (induction n arbitrary: m h)
  case 0
  then show ?case by simp
next
  case (Suc n)
  let ?h0 = "h\<lparr>captured := (captured h)(m := None)\<rparr>"
  have c0: "clearedOn {m} h ?h0" by (simp add: clearedOn_def)
  have n0: "nestedCapturingMatchers ?h0 = N" using Suc.prems(2) by simp
  have below: "nestingBelow n N r" if "r \<in> set (N m)" for r
    using Suc.prems(1) that by (simp add: list_all_iff)
  have "\<exists>h'. forEachNested (resetCapture n) (N m) ?h0 = Some h' \<and>
             clearedOn {x. \<exists>r \<in> set (N m). reaches N r x} ?h0 h'"
  proof (rule forEachNested_cleared [OF _ n0])
    fix r and k :: heap
    assume "r \<in> set (N m)" "nestedCapturingMatchers k = N"
    then show "\<exists>h'. resetCapture n r k = Some h' \<and> clearedOn {x. reaches N r x} k h'"
      using Suc.IH below by blast
  qed
  then obtain h' where h': "forEachNested (resetCapture n) (N m) ?h0 = Some h'"
    and c1: "clearedOn {x. \<exists>r \<in> set (N m). reaches N r x} ?h0 h'"
    by blast
  have "{m} \<union> {x. \<exists>r \<in> set (N m). reaches N r x} = {x. reaches N m x}"
    using reaches_unfold [of N m] by auto
  then have "clearedOn {x. reaches N m x} h h'"
    using clearedOn_trans [OF c0 c1] by simp
  then show ?case using h' Suc.prems(2) by simp
qed

text \<open>
  Claim C1, amended. When the lists of nested matchers reached from \<open>m\<close> hold no cycle,
  \<open>resetCapture\<close> on \<open>m\<close> returns; afterwards the capture of \<open>m\<close> and of every matcher
  reached from \<open>m\<close> through the lists of nested matchers is null, the capture of every
  other matcher is what it was, and so is every integer a \<^verbatim>\<open>CaptureStaticValue\<close> refers
  to: the integers are not restored.
\<close>

theorem resetCapture_clears_reachable_captures:
  assumes "nestingBelow n (nestedCapturingMatchers h) m"
  shows "\<exists>h'. resetCapture n m h = Some h' \<and> getCaptured h' m = None \<and>
           (\<forall>r. reaches (nestedCapturingMatchers h) m r \<longrightarrow> getCaptured h' r = None) \<and>
           (\<forall>r. \<not> reaches (nestedCapturingMatchers h) m r \<longrightarrow>
                 getCaptured h' r = getCaptured h r) \<and>
           cells h' = cells h \<and> predicates h' = predicates h \<and>
           nestedCapturingMatchers h' = nestedCapturingMatchers h"
proof -
  obtain h' where r: "resetCapture n m h = Some h'"
    and c: "clearedOn {x. reaches (nestedCapturingMatchers h) m x} h h'"
    using resetCapture_cleared [OF assms refl] by blast
  have "getCaptured h' m = None"
    using c by (simp add: clearedOn_def getCaptured_def reaches_self)
  then show ?thesis using r c by (simp add: clearedOn_def getCaptured_def)
qed

lemma heapTree_reach:
  "reaches (nestedCapturingMatchers heapTree) m x \<Longrightarrow> m \<le> 2 \<Longrightarrow> x \<le> 2"
  by (induction rule: reaches.induct) (auto simp: heapTree_def builder_defs split: if_splits)

theorem resetCapture_clears_reachable_captures_witness:
  "nestingBelow 3 (nestedCapturingMatchers heapTree) 0 \<and>
   (\<exists>h'. resetCapture 3 0 heapTree = Some h' \<and>
          getCaptured heapTree 1 = Some 11 \<and> getCaptured heapTree 2 = Some 12 \<and>
          getCaptured h' 0 = None \<and> getCaptured h' 1 = None \<and> getCaptured h' 2 = None \<and>
          getCaptured h' 3 = Some 13 \<and> cells h' 0 = 7)"
proof -
  let ?N = "nestedCapturingMatchers heapTree"
  have a: "nestingBelow 3 ?N 0"
    by (simp add: numeral_3_eq_3 heapTree_def builder_defs)
  have r1: "reaches ?N 0 1"
    by (rule reaches_nested [of 1]) (simp_all add: heapTree_def builder_defs reaches_self)
  have r2: "reaches ?N 0 2"
    by (rule reaches_nested [of 2]) (simp_all add: heapTree_def builder_defs reaches_self)
  have r3: "\<not> reaches ?N 0 3"
    using heapTree_reach [of 0 3] by auto
  from resetCapture_clears_reachable_captures [OF a]
  obtain h' where h': "resetCapture 3 0 heapTree = Some h'" "getCaptured h' 0 = None"
    "\<forall>r. reaches ?N 0 r \<longrightarrow> getCaptured h' r = None"
    "\<forall>r. \<not> reaches ?N 0 r \<longrightarrow> getCaptured h' r = getCaptured heapTree r"
    "cells h' = cells heapTree"
    by blast
  have "getCaptured h' 1 = None" "getCaptured h' 2 = None" using h'(3) r1 r2 by auto
  moreover have "getCaptured h' 3 = Some 13"
    using h'(4) r3 by (simp add: getCaptured_def heapTree_def builder_defs)
  moreover have "cells h' 0 = 7" using h'(5) by (simp add: heapTree_def builder_defs)
  moreover have "getCaptured heapTree 1 = Some 11" "getCaptured heapTree 2 = Some 12"
    by (simp_all add: getCaptured_def heapTree_def builder_defs)
  ultimately show ?thesis using a h'(1,2) by blast
qed

text \<open>
  Claim C1 as stated fails for the integers written by \<^verbatim>\<open>rank(CaptureStaticValue)\<close>:
  the integer at 0 is 0 before the match, the match on an operation of rank 2 writes 2,
  and after \<open>resetCapture\<close> the capture is null but the integer is still 2.
\<close>

theorem resetCapture_keeps_capture_cell:
  "cells heapCaptureRank 0 = 0 \<and>
   match 1 irRank2 heapCaptureRank 0 1 =
     Inr (True, heapCaptureRank\<lparr>cells := (cells heapCaptureRank)(0 := 2),
                                captured := (captured heapCaptureRank)(0 := Some 1)\<rparr>) \<and>
   resetCapture 1 0 (heapCaptureRank\<lparr>cells := (cells heapCaptureRank)(0 := 2),
                                     captured := (captured heapCaptureRank)(0 := Some 1)\<rparr>) =
     Some (heapCaptureRank\<lparr>cells := (cells heapCaptureRank)(0 := 2)\<rparr>) \<and>
   getCaptured (heapCaptureRank\<lparr>cells := (cells heapCaptureRank)(0 := 2)\<rparr>) 0 = None \<and>
   cells (heapCaptureRank\<lparr>cells := (cells heapCaptureRank)(0 := 2)\<rparr>) 0 = 2"
  by (simp add: heapCaptureRank_def irRank2_def builder_defs run_defs)

text \<open>
  The condition on the lists of nested matchers is needed: for the two matchers of
  \<open>heapCyclic\<close>, which refer to each other, \<open>resetCapture\<close> calls itself without end,
  whatever the bound on the depth of the calls.
\<close>

lemma heapCyclic_nested:
  "nestedCapturingMatchers heapCyclic 0 = [1] \<and> nestedCapturingMatchers heapCyclic 1 = [0, 1]"
  by (simp add: heapCyclic_def builder_defs)

lemma resetCapture_cycle_never_returns:
  "nestedCapturingMatchers h = nestedCapturingMatchers heapCyclic \<Longrightarrow> m \<le> 1 \<Longrightarrow>
   resetCapture n m h = None"
proof (induction n arbitrary: m h)
  case 0
  then show ?case by simp
next
  case (Suc n)
  let ?h0 = "h\<lparr>captured := (captured h)(m := None)\<rparr>"
  have n0: "nestedCapturingMatchers ?h0 = nestedCapturingMatchers heapCyclic"
    using Suc.prems(1) by simp
  have "m = 0 \<or> m = 1" using Suc.prems(2) by auto
  then show ?case
  proof
    assume "m = 0"
    then have "nestedCapturingMatchers h m = [1]"
      using Suc.prems(1) heapCyclic_nested by simp
    moreover have "resetCapture n 1 ?h0 = None" using Suc.IH [OF n0, of 1] by simp
    ultimately show ?thesis by simp
  next
    assume "m = 1"
    then have "nestedCapturingMatchers h m = [0, 1]"
      using Suc.prems(1) heapCyclic_nested by simp
    moreover have "resetCapture n 0 ?h0 = None" using Suc.IH [OF n0, of 0] by simp
    ultimately show ?thesis by simp
  qed
qed

subsection \<open>Matching twice\<close>

lemma sameWrites_refl: "sameWrites h h k k"
  by (simp add: sameWrites_def)

lemma sameWrites_trans:
  assumes "sameWrites h h1 k k1" and "sameWrites h1 h2 k1 k2"
  shows "sameWrites h h2 k k2"
proof -
  have "captured h2 m = captured k2 m \<or> (captured h2 m = captured h m \<and> captured k2 m = captured k m)"
    for m
    using assms unfolding sameWrites_def by metis
  moreover have "cells h2 c = cells k2 c \<or> (cells h2 c = cells h c \<and> cells k2 c = cells k c)"
    for c
    using assms unfolding sameWrites_def by metis
  ultimately show ?thesis using assms by (simp add: sameWrites_def)
qed

lemma sameWrites_cell:
  "sameWrites h (h\<lparr>cells := (cells h)(c := v)\<rparr>) k (k\<lparr>cells := (cells k)(c := v)\<rparr>)"
  by (simp add: sameWrites_def)

lemma sameWrites_capture:
  "sameWrites h h1 k k1 \<Longrightarrow>
   sameWrites h (h1\<lparr>captured := (captured h1)(m := v)\<rparr>) k (k1\<lparr>captured := (captured k1)(m := v)\<rparr>)"
  by (simp add: sameWrites_def)

lemma sameOutcome_trans:
  "sameWrites h h1 k k1 \<Longrightarrow> sameOutcome h1 k1 x y \<Longrightarrow> sameOutcome h k x y"
  by (auto simp: sameOutcome_def split: sum.splits intro: sameWrites_trans)

lemma sameOutcome_orOptional:
  "sameOutcome h k x y \<Longrightarrow> sameOutcome h k (orOptional optional x) (orOptional optional y)"
  by (auto simp: sameOutcome_def orOptional_def split: sum.splits)

lemma sameOutcome_pure: "sameOutcome h k (pure b h) (pure b k)"
  by (simp add: sameOutcome_def pure_def sameWrites_refl)

lemma sameOutcome_InrD:
  "sameOutcome h k x y \<Longrightarrow> x = Inr (b, h1) \<Longrightarrow> \<exists>k1. y = Inr (b, k1) \<and> sameWrites h h1 k k1"
  by (cases y) (auto simp: sameOutcome_def)

lemma sameOutcome_InlD: "sameOutcome h k x y \<Longrightarrow> x = Inl e \<Longrightarrow> y = Inl e"
  by (simp add: sameOutcome_def)

lemma sameWrites_predicates:
  "sameWrites h h1 k k1 \<Longrightarrow> predicates h1 = predicates h \<and> predicates k1 = predicates k"
  by (simp add: sameWrites_def)

lemma sameOutcome_anyOfUsers:
  assumes rec: "\<And>h k u. predicates h = P \<Longrightarrow> predicates k = P \<Longrightarrow>
                  sameOutcome h k (rec h m u) (rec k m u)"
  shows "predicates h = P \<Longrightarrow> predicates k = P \<Longrightarrow>
         sameOutcome h k (anyOfUsers rec m us h) (anyOfUsers rec m us k)"
proof (induction us arbitrary: h k)
  case Nil
  then show ?case by (simp add: sameOutcome_def sameWrites_refl)
next
  case (Cons u us)
  have so: "sameOutcome h k (rec h m u) (rec k m u)" using rec Cons.prems by simp
  show ?case
  proof (cases "rec h m u")
    case (Inl e)
    then show ?thesis using sameOutcome_InlD [OF so Inl] by (simp add: sameOutcome_def)
  next
    case (Inr r)
    obtain b h1 where r: "r = (b, h1)" by (cases r)
    obtain k1 where k1: "rec k m u = Inr (b, k1)" and sw: "sameWrites h h1 k k1"
      using sameOutcome_InrD [OF so] Inr r by blast
    show ?thesis
    proof (cases b)
      case True
      then show ?thesis using Inr r k1 sw by (simp add: sameOutcome_def)
    next
      case False
      have "predicates h1 = P" "predicates k1 = P"
        using sameWrites_predicates [OF sw] Cons.prems by simp_all
      then have "sameOutcome h1 k1 (anyOfUsers rec m us h1) (anyOfUsers rec m us k1)"
        by (rule Cons.IH)
      then show ?thesis using False Inr r k1 sameOutcome_trans [OF sw] by simp
    qed
  qed
qed

lemma sameOutcome_allOf:
  assumes fn: "\<And>p h k. p \<in> set ps \<Longrightarrow> predicates h = P \<Longrightarrow> predicates k = P \<Longrightarrow>
                 sameOutcome h k (fn p h) (fn p k)"
  shows "predicates h = P \<Longrightarrow> predicates k = P \<Longrightarrow>
         sameOutcome h k (allOf fn ps h) (allOf fn ps k)"
  using fn
proof (induction ps arbitrary: h k)
  case Nil
  then show ?case by (simp add: sameOutcome_def sameWrites_refl)
next
  case (Cons p ps)
  have so: "sameOutcome h k (fn p h) (fn p k)" using Cons.prems by simp
  show ?case
  proof (cases "fn p h")
    case (Inl e)
    then show ?thesis using sameOutcome_InlD [OF so Inl] by (simp add: sameOutcome_def)
  next
    case (Inr r)
    obtain b h1 where r: "r = (b, h1)" by (cases r)
    obtain k1 where k1: "fn p k = Inr (b, k1)" and sw: "sameWrites h h1 k k1"
      using sameOutcome_InrD [OF so] Inr r by blast
    show ?thesis
    proof (cases b)
      case False
      then show ?thesis using Inr r k1 sw by (simp add: sameOutcome_def)
    next
      case True
      have p1: "predicates h1 = P" and p2: "predicates k1 = P"
        using sameWrites_predicates [OF sw] Cons.prems by simp_all
      have "sameOutcome h1 k1 (allOf fn ps h1) (allOf fn ps k1)"
      proof (rule Cons.IH [OF p1 p2])
        fix p' and a c :: heap
        assume "p' \<in> set ps" "predicates a = P" "predicates c = P"
        then show "sameOutcome a c (fn p' a) (fn p' c)" using Cons.prems(3) [of p' a c] by simp
      qed
      then show ?thesis using True Inr r k1 sameOutcome_trans [OF sw] by simp
    qed
  qed
qed

lemma sameOutcome_runPlan:
  assumes rec: "\<And>m h k u. m \<in> set (planCalls pl) \<Longrightarrow> predicates h = P \<Longrightarrow> predicates k = P \<Longrightarrow>
                  sameOutcome h k (rec h m u) (rec k m u)"
    and quiet: "\<not> planReads pl"
    and P: "predicates h = P" "predicates k = P"
  shows "sameOutcome h k (runPlan rec g pl h op) (runPlan rec g pl k op)"
proof (cases pl)
  case (Crash e)
  then show ?thesis by (simp add: sameOutcome_def)
next
  case (Verdict b)
  then show ?thesis by (simp add: sameOutcome_pure)
next
  case (WriteCell c v)
  then show ?thesis by (simp add: sameOutcome_def pure_def sameWrites_cell)
next
  case (Nested m d optional)
  then show ?thesis using rec [of m h k d] P by (simp add: sameOutcome_orOptional)
next
  case (AnyUser m us optional)
  have "sameOutcome h k (anyOfUsers rec m us h) (anyOfUsers rec m us k)"
    using sameOutcome_anyOfUsers [of P rec m h k us] rec AnyUser P by simp
  then show ?thesis using AnyUser by (simp add: sameOutcome_orOptional)
next
  case (Exhaustive parent copy)
  then show ?thesis using quiet by simp
qed

lemma planReads_planOf: "planReads (planOf g p op) \<Longrightarrow> readsCaptures p"
  by (cases p)
     (auto simp: Let_def operandPlan_def subsetPlan_def split: sum.splits option.splits if_splits)

lemma sameOutcome_evalPredicate:
  assumes rec: "\<And>m h k u. m \<in> set (predicateCalls p) \<Longrightarrow> predicates h = P \<Longrightarrow>
                  predicates k = P \<Longrightarrow> sameOutcome h k (rec h m u) (rec k m u)"
    and quiet: "\<not> readsCaptures p"
    and P: "predicates h = P" "predicates k = P"
  shows "sameOutcome h k (evalPredicate rec g p h op) (evalPredicate rec g p k op)"
proof -
  have "sameOutcome h k (runPlan rec g (planOf g p op) h op) (runPlan rec g (planOf g p op) k op)"
  proof (rule sameOutcome_runPlan [where P = P])
    show "\<not> planReads (planOf g p op)" using quiet planReads_planOf by blast
    show "predicates h = P" "predicates k = P" using P by simp_all
    fix m and a c :: heap and u
    assume "m \<in> set (planCalls (planOf g p op))" "predicates a = P" "predicates c = P"
    then show "sameOutcome a c (rec a m u) (rec c m u)"
      using rec [of m a c u] planCalls_planOf by blast
  qed
  then show ?thesis by (simp add: evalPredicate_plan)
qed

lemma sameOutcome_match:
  assumes closed: "\<And>r p. r \<in> R \<Longrightarrow> p \<in> set (P r) \<Longrightarrow>
                     set (predicateCalls p) \<subseteq> R \<and> \<not> readsCaptures p"
  shows "r \<in> R \<Longrightarrow> predicates h = P \<Longrightarrow> predicates k = P \<Longrightarrow>
         sameOutcome h k (match n g h r op) (match n g k r op)"
proof (induction n arbitrary: r h k op)
  case 0
  then show ?case by (simp add: sameOutcome_def)
next
  case (Suc n)
  show ?case
  proof (cases "isLinalgOp g op")
    case False
    then show ?thesis by (simp add: sameOutcome_def sameWrites_refl)
  next
    case True
    let ?fn = "\<lambda>p h'. evalPredicate (match n g) g p h' op"
    have so: "sameOutcome h k (allOf ?fn (P r) h) (allOf ?fn (P r) k)"
    proof (rule sameOutcome_allOf [OF _ Suc.prems(2,3)])
      fix p and a c :: heap
      assume p: "p \<in> set (P r)" and a: "predicates a = P" and c: "predicates c = P"
      show "sameOutcome a c (?fn p a) (?fn p c)"
      proof (rule sameOutcome_evalPredicate [OF _ _ a c])
        show "\<not> readsCaptures p" using closed [OF Suc.prems(1) p] by simp
        fix m and a' c' :: heap and u
        assume "m \<in> set (predicateCalls p)" "predicates a' = P" "predicates c' = P"
        then show "sameOutcome a' c' (match n g a' m u) (match n g c' m u)"
          using Suc.IH [of m a' c' u] closed [OF Suc.prems(1) p] by blast
      qed
    qed
    show ?thesis
    proof (cases "allOf ?fn (P r) h")
      case (Inl e)
      then show ?thesis
        using sameOutcome_InlD [OF so Inl] True Suc.prems(2,3) by (simp add: sameOutcome_def)
    next
      case (Inr x)
      obtain b h1 where x: "x = (b, h1)" by (cases x)
      obtain k1 where k1: "allOf ?fn (P r) k = Inr (b, k1)" and sw: "sameWrites h h1 k k1"
        using sameOutcome_InrD [OF so] Inr x by blast
      show ?thesis
        using True Suc.prems(2,3) Inr x k1 sw sameWrites_capture [OF sw, of r "Some op"]
        by (simp add: sameOutcome_def)
    qed
  qed
qed



lemma allOf_snoc:
  "allOf fn (ps @ [p]) h =
     (case allOf fn ps h of
        Inl e \<Rightarrow> Inl e
      | Inr r \<Rightarrow> if fst r then (case fn p (snd r) of Inl e \<Rightarrow> Inl e | Inr s \<Rightarrow> Inr s)
                 else Inr (False, snd r))"
  by (induction ps arbitrary: h) (auto split: sum.splits)

lemma insertCaptured_cong:
  "(\<And>r. r \<in> set ms \<Longrightarrow> captured k r = captured h r) \<Longrightarrow>
   insertCaptured k ms acc = insertCaptured h ms acc"
  by (induction ms arbitrary: acc) (auto simp: getCaptured_def split: option.splits)

lemma checkAllTilableMatched_cong:
  assumes "\<And>r. r \<in> set copy \<Longrightarrow> captured k r = captured h r"
  shows "checkAllTilableMatched g k parent op copy = checkAllTilableMatched g h parent op copy"
proof -
  have "insertCaptured k copy [] = insertCaptured h copy []"
    using assms by (rule insertCaptured_cong)
  then show ?thesis by (simp add: checkAllTilableMatched_def Let_def split: option.splits)
qed

lemma sameWrites_capturedD:
  "sameWrites h h1 k k1 \<Longrightarrow>
   captured h1 m = captured k1 m \<or> (captured h1 m = captured h m \<and> captured k1 m = captured k m)"
  by (simp add: sameWrites_def)

lemma sameWrites_cellsD:
  "sameWrites h h1 k k1 \<Longrightarrow>
   cells h1 c = cells k1 c \<or> (cells h1 c = cells h c \<and> cells k1 c = cells k c)"
  by (simp add: sameWrites_def)

lemma rerun_same:
  assumes "sameWrites h h0 h0 k0"
  shows "k0 = h0"
proof -
  have "captured k0 x = captured h0 x" for x
    using sameWrites_capturedD [OF assms, of x] by auto
  moreover have "cells k0 c = cells h0 c" for c
    using sameWrites_cellsD [OF assms, of c] by auto
  ultimately have "captured k0 = captured h0" "cells k0 = cells h0"
    by (simp_all add: fun_eq_iff)
  then show ?thesis using assms by (simp add: sameWrites_def)
qed

lemma rerun_captured:
  assumes "sameWrites h h0 (h0\<lparr>captured := (captured h0)(m := v)\<rparr>) k0"
  shows "k0\<lparr>captured := (captured k0)(m := v)\<rparr> = h0\<lparr>captured := (captured h0)(m := v)\<rparr>"
    and "x \<noteq> m \<Longrightarrow> captured k0 x = captured h0 x"
proof -
  have c: "captured k0 y = captured h0 y" if "y \<noteq> m" for y
    using sameWrites_capturedD [OF assms, of y] that by auto
  have "cells k0 c = cells h0 c" for c
    using sameWrites_cellsD [OF assms, of c] by auto
  then have "cells k0 = cells h0" by (simp add: fun_eq_iff)
  moreover have "(captured k0)(m := v) = (captured h0)(m := v)"
    using c by (auto simp: fun_eq_iff)
  ultimately show "k0\<lparr>captured := (captured k0)(m := v)\<rparr> = h0\<lparr>captured := (captured h0)(m := v)\<rparr>"
    using assms by (simp add: sameWrites_def)
  show "x \<noteq> m \<Longrightarrow> captured k0 x = captured h0 x" using c by simp
qed

lemma exhaustiveLast_shape:
  assumes "exhaustiveLast rs m PS"
  shows "\<exists>ps t. set ps \<subseteq> set PS \<and> list_all (quiet rs) ps \<and>
           (\<forall>a. allOf (\<lambda>p h'. evalPredicate rec g p h' op) PS a =
                  (case allOf (\<lambda>p h'. evalPredicate rec g p h' op) ps a of
                     Inl e \<Rightarrow> Inl e
                   | Inr r \<Rightarrow> Inr (fst r \<and> t (snd r), snd r))) \<and>
           (\<forall>a c. (\<forall>x. x \<noteq> m \<longrightarrow> captured c x = captured a x) \<longrightarrow> t c = t a)"
proof (cases "rev PS")
  case Nil
  then have "PS = []" by simp
  then show ?thesis
    by (intro exI [of _ "[]"] exI [of _ "\<lambda>_. True"]) simp
next
  case (Cons p before)
  then have PS: "PS = rev before @ [p]" by (metis rev_rev_ident rev.simps(2))
  have before: "list_all (quiet rs) (rev before)"
    using assms Cons by (simp add: exhaustiveLast_def)
  show ?thesis
  proof (cases "readsCaptures p")
    case True
    then obtain scope copy where p: "p = AllTilableOpsCaptured scope copy"
      by (cases p) simp_all
    have m: "m \<notin> set copy" using assms Cons p by (simp add: exhaustiveLast_def)
    let ?t = "\<lambda>a. checkAllTilableMatched g a (getParentOfType g op scope) op copy"
    have "?t c = ?t a" if "\<forall>x. x \<noteq> m \<longrightarrow> captured c x = captured a x" for a c
      using that m by (intro checkAllTilableMatched_cong) auto
    moreover have "allOf (\<lambda>p h'. evalPredicate rec g p h' op) PS a =
                  (case allOf (\<lambda>p h'. evalPredicate rec g p h' op) (rev before) a of
                     Inl e \<Rightarrow> Inl e
                   | Inr r \<Rightarrow> Inr (fst r \<and> ?t (snd r), snd r))" for a
      by (auto simp: PS p allOf_snoc pure_def split: sum.splits)
    ultimately show ?thesis
      using before PS by (intro exI [of _ "rev before"] exI [of _ ?t]) auto
  next
    case False
    then have "quiet rs p" using assms Cons by (cases p) (simp_all add: exhaustiveLast_def)
    then have "list_all (quiet rs) PS" using before PS by simp
    moreover have "allOf (\<lambda>p h'. evalPredicate rec g p h' op) PS a =
                  (case allOf (\<lambda>p h'. evalPredicate rec g p h' op) PS a of
                     Inl e \<Rightarrow> Inl e
                   | Inr r \<Rightarrow> Inr (fst r \<and> True, snd r))" for a
      by (auto split: sum.splits)
    ultimately show ?thesis
      by (intro exI [of _ PS] exI [of _ "\<lambda>_. True"]) auto
  qed
qed



text \<open>
  Claim C7, amended. Let \<open>rs\<close> be a set of matchers closed under calls, none of which
  has the exhaustiveness predicate, and let the closures of \<open>m\<close> call matchers of \<open>rs\<close>
  only, with the exhaustiveness predicate at most as the last closure of \<open>m\<close> and over
  a list that does not hold \<open>m\<close>. If \<open>match\<close> on \<open>m\<close> and a candidate returns, a second
  call on the heap it left returns the same verdict and leaves the same heap: the same
  captured operations and the same integers.
\<close>

theorem match_twice_same:
  assumes closed: "closedQuiet h rs"
    and root: "exhaustiveLast rs m (predicates h m)"
    and first: "match n g h m op = Inr (b, h1)"
  shows "match n g h1 m op = Inr (b, h1)"
proof -
  obtain n' where n: "n = Suc n'" using first by (cases n) auto
  show ?thesis
  proof (cases "isLinalgOp g op")
    case False
    then show ?thesis using first n by auto
  next
    case True
    let ?fn = "\<lambda>p h'. evalPredicate (match n' g) g p h' op"
    let ?P = "predicates h"
    have "\<exists>ps t. set ps \<subseteq> set (?P m) \<and> list_all (quiet rs) ps \<and>
           (\<forall>a. allOf ?fn (?P m) a =
                  (case allOf ?fn ps a of
                     Inl e \<Rightarrow> Inl e
                   | Inr r \<Rightarrow> Inr (fst r \<and> t (snd r), snd r))) \<and>
           (\<forall>a c. (\<forall>x. x \<noteq> m \<longrightarrow> captured c x = captured a x) \<longrightarrow> t c = t a)"
      by (rule exhaustiveLast_shape [OF root])
    then obtain ps t where shp:
      "set ps \<subseteq> set (?P m) \<and> list_all (quiet rs) ps \<and>
           (\<forall>a. allOf ?fn (?P m) a =
                  (case allOf ?fn ps a of
                     Inl e \<Rightarrow> Inl e
                   | Inr r \<Rightarrow> Inr (fst r \<and> t (snd r), snd r))) \<and>
           (\<forall>a c. (\<forall>x. x \<noteq> m \<longrightarrow> captured c x = captured a x) \<longrightarrow> t c = t a)"
      by (elim exE)
    note ps = shp [THEN conjunct2, THEN conjunct1]
    note shape = shp [THEN conjunct2, THEN conjunct2, THEN conjunct1, rule_format]
    note t = shp [THEN conjunct2, THEN conjunct2, THEN conjunct2, rule_format]
    have closed': "set (predicateCalls p) \<subseteq> set rs \<and> \<not> readsCaptures p"
      if "r \<in> set rs" "p \<in> set (?P r)" for r p
      using closed that by (auto simp: closedQuiet_def quiet_def callsWithin_def list_all_iff)
    have indep: "sameOutcome a c (allOf ?fn ps a) (allOf ?fn ps c)"
      if a: "predicates a = ?P" and c: "predicates c = ?P" for a c
    proof (rule sameOutcome_allOf [OF _ a c])
      fix p and a' c' :: heap
      assume p: "p \<in> set ps" and a': "predicates a' = ?P" and c': "predicates c' = ?P"
      have q: "set (predicateCalls p) \<subseteq> set rs" "\<not> readsCaptures p"
        using ps p by (auto simp: quiet_def callsWithin_def list_all_iff)
      show "sameOutcome a' c' (?fn p a') (?fn p c')"
      proof (rule sameOutcome_evalPredicate [OF _ q(2) a' c'])
        fix r and a'' c'' :: heap and u
        assume "r \<in> set (predicateCalls p)" "predicates a'' = ?P" "predicates c'' = ?P"
        then have r: "r \<in> set rs" and pa: "predicates a'' = ?P" and pc: "predicates c'' = ?P"
          using q(1) by auto
        show "sameOutcome a'' c'' (match n' g a'' r u) (match n' g c'' r u)"
        proof (rule sameOutcome_match [where R = "set rs" and P = ?P, OF _ r pa pc])
          fix r' p'
          assume "r' \<in> set rs" "p' \<in> set (?P r')"
          then show "set (predicateCalls p') \<subseteq> set rs \<and> \<not> readsCaptures p'"
            by (rule closed')
        qed
      qed
    qed
    from first n True obtain b0 h0 where
      all: "allOf ?fn (?P m) h = Inr (b0, h0)"
      and res: "b = b0" "h1 = (if b0 then h0\<lparr>captured := (captured h0)(m := Some op)\<rparr> else h0)"
      by (auto split: sum.splits if_splits)
    have cs: "(case allOf ?fn ps h of
                 Inl e \<Rightarrow> Inl e
               | Inr r \<Rightarrow> Inr (fst r \<and> t (snd r), snd r)) = Inr (b0, h0)"
      using all shape [of h] by simp
    obtain bp where run: "allOf ?fn ps h = Inr (bp, h0)" and b0: "b0 = (bp \<and> t h0)"
    proof (cases "allOf ?fn ps h")
      case (Inl e)
      then show thesis using cs by simp
    next
      case (Inr r)
      then have "snd r = h0" and "b0 = (fst r \<and> t (snd r))" using cs by auto
      then show thesis using Inr that [of "fst r"] by (cases r) auto
    qed
    have self: "sameWrites h h0 h h0"
      using sameOutcome_InrD [OF indep [OF refl refl] run] run by simp
    have P0: "predicates h0 = ?P" using self by (simp add: sameWrites_def)
    have P1: "predicates h1 = ?P" using res(2) P0 by simp
    obtain k0 where rerun: "allOf ?fn ps h1 = Inr (bp, k0)" and sw: "sameWrites h h0 h1 k0"
      using sameOutcome_InrD [OF indep [OF refl P1] run] by blast
    show ?thesis
    proof (cases b0)
      case False
      then have "h1 = h0" using res(2) by simp
      then have "k0 = h0" using sw rerun_same by simp
      then have "allOf ?fn (?P m) h1 = Inr (False, h0)"
        using shape [of h1] rerun b0 False by simp
      then show ?thesis using n True P1 res False \<open>h1 = h0\<close> by simp
    next
      case b: True
      then have h1: "h1 = h0\<lparr>captured := (captured h0)(m := Some op)\<rparr>" using res(2) by simp
      have eq: "k0\<lparr>captured := (captured k0)(m := Some op)\<rparr> = h1"
        and same: "\<And>x. x \<noteq> m \<Longrightarrow> captured k0 x = captured h0 x"
        using rerun_captured [of h h0 m "Some op" k0] sw h1 by simp_all
      have "t k0 = t h0" by (rule t) (simp add: same)
      then have "allOf ?fn (?P m) h1 = Inr (True, k0)"
        using shape [of h1] rerun b0 b by simp
      then show ?thesis using n True P1 res b eq by simp
    qed
  qed
qed

lemma heapNestedExhaustive_closures:
  "predicates heapNestedExhaustive 0 = [InputMatcher 0 1 True, InputMatcher 0 3 True]"
  "predicates heapNestedExhaustive 1 = [InputMatcher 0 2 True, AllTilableOpsCaptured FuncOp [2]]"
  "predicates heapNestedExhaustive 2 = []"
  "predicates heapNestedExhaustive 3 = [ResultHasAnyUse 0 2 True]"
  "nestedCapturingMatchers heapNestedExhaustive 0 = [1, 2, 3, 2]"
  by (simp_all add: heapNestedExhaustive_def builder_defs)

text \<open>
  Claim C7 as stated fails when a nested matcher has the exhaustiveness predicate. In
  the first match of the matcher 0 on 10, the matcher 1 runs on 11 while the matcher 2
  has captured nothing: its set is \<open>{11}\<close>, the function has two operations with the
  tiling interface, the matcher 1 fails (optionally) and captures nothing; then the
  matcher 3 makes the matcher 2 capture 10. In the second match the set of the matcher 1
  is \<open>{10, 11}\<close>, and it captures 11: the captures after the second call are not the
  captures after the first.
\<close>

theorem second_match_changes_captures:
  "match 3 irPair heapNestedExhaustive 0 10 = Inr (True, heapAfterFirst) \<and>
   match 3 irPair heapAfterFirst 0 10 = Inr (True, heapAfterSecond) \<and>
   getCaptured heapAfterFirst 1 = None \<and>
   getCaptured heapAfterSecond 1 = Some 11"
  by (simp add: numeral_3_eq_3 heapAfterFirst_def heapAfterSecond_def heapNestedExhaustive_def
      builder_defs irPair_def run_defs fun_eq_iff)

theorem match_twice_same_witness:
  "closedQuiet heapRootExhaustive [2] \<and>
   exhaustiveLast [2] 0 (predicates heapRootExhaustive 0) \<and>
   predicates heapRootExhaustive 0 = [InputMatcher 0 2 True, AllTilableOpsCaptured FuncOp [2]] \<and>
   match 2 irPair heapRootExhaustive 0 10 = Inr (True, heapRootAfter) \<and>
   match 2 irPair heapRootAfter 0 10 = Inr (True, heapRootAfter)"
proof -
  have p: "predicates heapRootExhaustive 0 =
             [InputMatcher 0 2 True, AllTilableOpsCaptured FuncOp [2]]"
    by (simp add: heapRootExhaustive_def builder_defs)
  have a: "closedQuiet heapRootExhaustive [2]"
    by (simp add: closedQuiet_def heapRootExhaustive_def builder_defs)
  have b: "exhaustiveLast [2] 0 (predicates heapRootExhaustive 0)"
    by (simp add: p exhaustiveLast_def quiet_def callsWithin_def)
  have d: "match 2 irPair heapRootExhaustive 0 10 = Inr (True, heapRootAfter)"
    by (simp add: numeral_2_eq_2 heapRootAfter_def heapRootExhaustive_def
        builder_defs irPair_def run_defs fun_eq_iff)
  show ?thesis using a b p d match_twice_same [OF a b d] by simp
qed

section \<open>Further properties\<close>

text \<open>
  A call of \<open>match\<close> that returns leaves the closures and the lists of nested
  matchers of every matcher as they were: it writes captures and integers only.
\<close>

theorem match_keeps_closures:
  assumes "match n g h m op = Inr (b, h')"
  shows "predicates h' = predicates h \<and>
         nestedCapturingMatchers h' = nestedCapturingMatchers h"
proof -
  have "keeps {} h h'"
    using keeps_match [of UNIV "predicates h" "{}" m h n g op b h'] assms by simp
  then show ?thesis by (simp add: keeps_def)
qed

theorem match_keeps_closures_witness:
  "match 2 irInputs heapNested 0 10 =
     Inr (False, heapNested\<lparr>captured := (captured heapNested)(1 := Some 11)\<rparr>) \<and>
   predicates (heapNested\<lparr>captured := (captured heapNested)(1 := Some 11)\<rparr>) =
     predicates heapNested"
proof -
  have d: "match 2 irInputs heapNested 0 10 =
             Inr (False, heapNested\<lparr>captured := (captured heapNested)(1 := Some 11)\<rparr>)"
    by (simp add: numeral_2_eq_2 irInputs_def heapNested_def builder_defs run_defs)
  show ?thesis using d match_keeps_closures [OF d] by simp
qed

text \<open>
  A negative dimension counts from the last one: when \<open>rank + d\<close> is not
  negative, \<open>dim(d, kind)\<close> is \<open>dim(rank + d, kind)\<close>; on a candidate of rank 3,
  \<open>dim(-1, kind)\<close> is \<open>dim(2, kind)\<close>.
\<close>

theorem dim_negative_index:
  assumes "dimension < 0" and "0 \<le> int (getNumLoops g op) + dimension"
  shows "evalPredicate rec g (DimsIteratorType [dimension] kind) h op =
         evalPredicate rec g (DimsIteratorType [int (getNumLoops g op) + dimension] kind) h op"
  using assms by (simp add: Let_def resolve_def getNumLoops_def)

theorem dim_negative_index_witness:
  "(-1 :: int) < 0 \<and> 0 \<le> int (getNumLoops irRank3 1) + (-1) \<and>
   evalPredicate (match 0 irRank3) irRank3 (DimsIteratorType [-1] reduction) emptyHeap 1 =
     evalPredicate (match 0 irRank3) irRank3 (DimsIteratorType [2] reduction) emptyHeap 1 \<and>
   evalPredicate (match 0 irRank3) irRank3 (DimsIteratorType [2] reduction) emptyHeap 1 =
     Inr (True, emptyHeap)"
proof -
  have a: "(-1 :: int) < 0" by simp
  have n: "getNumLoops irRank3 1 = 3" by (simp add: getNumLoops_def irRank3_def emptyIR_def)
  have b: "0 \<le> int (getNumLoops irRank3 1) + (-1)" using n by simp
  have c: "evalPredicate (match 0 irRank3) irRank3 (DimsIteratorType [2] reduction) emptyHeap 1 =
             Inr (True, emptyHeap)"
    by (simp add: irRank3_def emptyIR_def resolve_def pure_def)
  show ?thesis
    using a b c n dim_negative_index [OF a b, of "match 0 irRank3" reduction emptyHeap]
    by simp
qed

lemma allDimsExceptLoop_last:
  "xs \<noteq> [] \<Longrightarrow>
   allDimsExceptLoop [int (k + length xs) - 1] kind (enumerate k xs) =
     list_all (\<lambda>t. t = kind) (butlast xs)"
proof (induction xs arbitrary: k)
  case Nil
  then show ?case by simp
next
  case (Cons x xs)
  show ?case
  proof (cases "xs = []")
    case True
    then show ?thesis by simp
  next
    case False
    then have "allDimsExceptLoop [int (Suc k + length xs) - 1] kind (enumerate (Suc k) xs) =
                 list_all (\<lambda>t. t = kind) (butlast xs)"
      by (rule Cons.IH)
    moreover have "int k \<noteq> int (k + length (x # xs)) - 1" using False by (cases xs) auto
    ultimately show ?thesis using False by auto
  qed
qed

text \<open>
  On a candidate with at least one loop, \<open>dim(AllDimsExcept({-1}), kind)\<close>
  succeeds exactly when every iterator type but the last is \<open>kind\<close>.
\<close>

theorem dim_AllDimsExcept_last:
  assumes "getIteratorTypesArray g op \<noteq> []"
  shows "evalPredicate rec g (AllDimsExceptIteratorType [-1] kind) h op =
           Inr (list_all (\<lambda>t. t = kind) (butlast (getIteratorTypesArray g op)), h)"
  using assms allDimsExceptLoop_last [of "getIteratorTypesArray g op" 0 kind]
  by (simp add: Let_def resolve_def getNumLoops_def pure_def)

theorem dim_AllDimsExcept_last_witness:
  "getIteratorTypesArray irRank3 1 \<noteq> [] \<and>
   evalPredicate (match 0 irRank3) irRank3 (AllDimsExceptIteratorType [-1] parallel) emptyHeap 1 =
     Inr (True, emptyHeap) \<and>
   evalPredicate (match 0 irRank3) irRank3 (AllDimsExceptIteratorType [] parallel) emptyHeap 1 =
     Inr (False, emptyHeap)"
proof -
  have a: "getIteratorTypesArray irRank3 1 \<noteq> []" by (simp add: irRank3_def emptyIR_def)
  have b: "evalPredicate (match 0 irRank3) irRank3 (AllDimsExceptIteratorType [] parallel) emptyHeap 1 =
     Inr (False, emptyHeap)"
    by (simp add: irRank3_def emptyIR_def pure_def getNumLoops_def enumerate_eq_zip)
  show ?thesis
    using a b dim_AllDimsExcept_last [OF a, of "match 0 irRank3" parallel emptyHeap]
    by (simp add: irRank3_def emptyIR_def)
qed

text \<open>
  The closure of \<open>rank(CaptureStaticValue)\<close> writes the rank of the candidate
  to the integer it refers to and succeeds, whatever the candidate.
\<close>

theorem rank_capture_always_succeeds:
  "predicates (rank_CaptureStaticValue m capture h0) m =
     predicates h0 m @ [RankCaptureStaticValue capture] \<and>
   evalPredicate rec g (RankCaptureStaticValue capture) h op =
     Inr (True, h\<lparr>cells := (cells h)(capture := int (getNumLoops g op))\<rparr>)"
  by (simp add: rank_CaptureStaticValue_def addPredicate_def pure_def)

text \<open>
  Through two \<^verbatim>\<open>extract_slice\<close> views with one use each, the backward
  traversal from the last view returns the producer and the forward traversal from the
  result of the producer returns the consumer.
\<close>

theorem traversal_through_two_views:
  "opKind irViews 1 = OtherOp \<and> opKind irViews 2 = ExtractSliceOp \<and>
   opKind irViews 3 = ExtractSliceOp \<and> opKind irViews 4 = OtherOp \<and>
   traverseSubsetsBackwards irViews (OpResult 3 0) = Some (Inr 1) \<and>
   traverseSubsetsForwardAnyUse irViews (OpResult 1 0) = Some 4"
  by (simp add: traverseSubsetsForwardAnyUse.simps traverseSubsetsBackwards.simps
      irViews_def emptyIR_def getSource_def operandGet_def index_def)

end
